theory Spec2Isabelle
  imports Main "HOL-Library.AList" "HOL-Library.Sublist" "HOL-Library.Product_Lexorder"
begin

section \<open>The flow-sensitive variable environment (class VariableTable)\<close>

text \<open>
  The source is TypeScript; its methods fail with a JavaScript \<open>TypeError\<close> (reading a
  property of \<open>undefined\<close> or \<open>null\<close>) or a \<open>ReferenceError\<close> (evaluating an identifier
  that no declaration or import of the module binds). Every such point of the source is
  a branch of the model returning \<open>Inl TypeError\<close> or \<open>Inl ReferenceError\<close>.
\<close>

datatype error = TypeError | ReferenceError

datatype TypedVariableSetKind = KindNone | Scope | BranchGroup | Branch

text \<open>
  \<open>TypedVariable\<close> and \<open>TypedVariableSet\<close> are mutable JavaScript objects that the table
  shares by reference: \<open>pushBranch\<close> stores the same set object in the parent's
  \<open>branches\<close> and on the stack, and \<open>_mergeSets\<close> stores a branch's variable object in
  the parent. The model therefore keeps an explicit store: \<open>objs\<close> holds the
  \<open>TypedVariable\<close> objects and \<open>sets\<close> the \<open>TypedVariableSet\<close> objects, both addressed
  by their allocation index, and \<open>typeVariableSetStack\<close> is the stack of set addresses
  (top of the stack last, as \<open>Array.prototype.push\<close> has it). The \<open>variables\<close> object of
  a set is an association list from property name to the address of the variable
  object, in insertion order (the order \<open>Object.keys\<close> gives for names that are not
  array indices; PHP variable names start with \<open>$\<close>). Inherited properties of
  \<open>Object.prototype\<close> are not modelled, for the same reason.
\<close>

type_synonym addr = nat

record TypedVariable =
  tv_name :: string
  tv_type :: string

record TypedVariableSet =
  kind :: TypedVariableSetKind
  variables :: "(string \<times> addr) list"
  branches :: "addr list"

record VariableTable =
  objs :: "TypedVariable list"
  sets :: "TypedVariableSet list"
  typeVariableSetStack :: "addr list"

definition create :: VariableTable where
  "create = \<lparr>objs = [],
             sets = [\<lparr>kind = Scope, variables = [], branches = []\<rparr>],
             typeVariableSetStack = [0]\<rparr>"

text \<open>
  \<open>_top()\<close> reads \<open>stack[stack.length - 1]\<close>, which is \<open>undefined\<close> for the empty stack;
  the callers then raise when they read a property of it.
\<close>

definition top :: "VariableTable \<Rightarrow> addr option" where
  "top t = (if typeVariableSetStack t = [] then None
            else Some (last (typeVariableSetStack t)))"

text \<open>
  \<open>setType\<close>: falsy (empty) name or type is ignored; otherwise a fresh variable object
  is allocated and stored under \<open>varName\<close> in the top set.
\<close>

definition setType :: "string \<Rightarrow> string \<Rightarrow> VariableTable \<Rightarrow> error + VariableTable" where
  "setType varName ty t =
     (if varName = [] \<or> ty = [] then Inr t
      else case top t of
        None \<Rightarrow> Inl TypeError
      | Some a \<Rightarrow>
          Inr (t\<lparr>objs := objs t @ [\<lparr>tv_name = varName, tv_type = ty\<rparr>],
                 sets := (sets t)[a := (sets t ! a)
                   \<lparr>variables := AList.update varName (length (objs t)) (variables (sets t ! a))\<rparr>]\<rparr>))"

fun setTypeMany :: "string list \<Rightarrow> string \<Rightarrow> VariableTable \<Rightarrow> error + VariableTable" where
  "setTypeMany [] ty t = Inr t"
| "setTypeMany (v # vs) ty t =
     (case setType v ty t of Inl e \<Rightarrow> Inl e | Inr t' \<Rightarrow> setTypeMany vs ty t')"

text \<open>
  \<open>getType\<close>: the loop runs from the top of the stack downwards; it returns the type of
  the first set that has the name and gives up after inspecting a set of kind \<open>Scope\<close>.
  An absent optional \<open>className\<close> is \<open>None\<close>; an empty one is falsy.
\<close>

fun getTypeLoop :: "VariableTable \<Rightarrow> string \<Rightarrow> addr list \<Rightarrow> string" where
  "getTypeLoop t varName [] = []"
| "getTypeLoop t varName (a # as) =
     (case map_of (variables (sets t ! a)) varName of
        Some c \<Rightarrow> tv_type (objs t ! c)
      | None \<Rightarrow> if kind (sets t ! a) = Scope then [] else getTypeLoop t varName as)"

fun getType :: "VariableTable \<Rightarrow> string \<Rightarrow> string option \<Rightarrow> string" where
  "getType t varName (Some className) =
     (if varName = ''$this'' \<and> className \<noteq> [] then className
      else getTypeLoop t varName (rev (typeVariableSetStack t)))"
| "getType t varName None = getTypeLoop t varName (rev (typeVariableSetStack t))"

text \<open>
  \<open>pushScope\<close>: for every carried name with a non-empty type a fresh variable object is
  allocated for the new scope. An absent \<open>carry\<close> argument is \<open>None\<close>.
\<close>

fun carryLoop :: "string list \<Rightarrow> (string \<times> addr) list \<Rightarrow> VariableTable
    \<Rightarrow> (string \<times> addr) list \<times> VariableTable" where
  "carryLoop [] vars t = (vars, t)"
| "carryLoop (c # cs) vars t =
     (let ty = getType t c None in
      if ty \<noteq> [] then
        carryLoop cs (AList.update c (length (objs t)) vars)
          (t\<lparr>objs := objs t @ [\<lparr>tv_name = c, tv_type = ty\<rparr>]\<rparr>)
      else carryLoop cs vars t)"

definition pushScope :: "string list option \<Rightarrow> VariableTable \<Rightarrow> VariableTable" where
  "pushScope carry t =
     (let (vars, t1) = (case carry of None \<Rightarrow> ([], t) | Some cs \<Rightarrow> carryLoop cs [] t) in
      t1\<lparr>sets := sets t1 @ [\<lparr>kind = Scope, variables = vars, branches = []\<rparr>],
         typeVariableSetStack := typeVariableSetStack t1 @ [length (sets t1)]\<rparr>)"

definition popScope :: "VariableTable \<Rightarrow> VariableTable" where
  "popScope t = t\<lparr>typeVariableSetStack := butlast (typeVariableSetStack t)\<rparr>"

definition pushBranch :: "VariableTable \<Rightarrow> error + VariableTable" where
  "pushBranch t =
     (case top t of
        None \<Rightarrow> Inl TypeError
      | Some a \<Rightarrow>
          Inr (t\<lparr>sets := (sets t)[a := (sets t ! a)
                     \<lparr>branches := branches (sets t ! a) @ [length (sets t)]\<rparr>]
                   @ [\<lparr>kind = Branch, variables = [], branches = []\<rparr>],
                 typeVariableSetStack := typeVariableSetStack t @ [length (sets t)]\<rparr>))"

definition popBranch :: "VariableTable \<Rightarrow> VariableTable" where
  "popBranch t = t\<lparr>typeVariableSetStack := butlast (typeVariableSetStack t)\<rparr>"

text \<open>
  \<open>_mergeSets(a, b)\<close>: one iteration per key of \<open>b.variables\<close> as they were when the loop
  started. \<open>TypeString.merge\<close> is not in the sources; it is the parameter \<open>mrg\<close>.
  A variable of \<open>b\<close> that \<open>a\<close> lacks is stored in \<open>a\<close> by reference (same address).
\<close>

definition mergeVar :: "(string \<Rightarrow> string \<Rightarrow> string) \<Rightarrow> addr \<Rightarrow> addr \<Rightarrow> string
    \<Rightarrow> VariableTable \<Rightarrow> error + VariableTable" where
  "mergeVar mrg a b key t =
     (case map_of (variables (sets t ! b)) key of
        None \<Rightarrow> Inl TypeError
      | Some c \<Rightarrow>
          (let nm = tv_name (objs t ! c) in
           case map_of (variables (sets t ! a)) nm of
             Some c' \<Rightarrow>
               Inr (t\<lparr>objs := (objs t)[c' := (objs t ! c')
                      \<lparr>tv_type := mrg (tv_type (objs t ! c')) (tv_type (objs t ! c))\<rparr>]\<rparr>)
           | None \<Rightarrow>
               Inr (t\<lparr>sets := (sets t)[a := (sets t ! a)
                      \<lparr>variables := AList.update nm c (variables (sets t ! a))\<rparr>]\<rparr>)))"

fun mergeLoop :: "(string \<Rightarrow> string \<Rightarrow> string) \<Rightarrow> addr \<Rightarrow> addr \<Rightarrow> string list
    \<Rightarrow> VariableTable \<Rightarrow> error + VariableTable" where
  "mergeLoop mrg a b [] t = Inr t"
| "mergeLoop mrg a b (k # ks) t =
     (case mergeVar mrg a b k t of Inl e \<Rightarrow> Inl e | Inr t' \<Rightarrow> mergeLoop mrg a b ks t')"

definition mergeSets :: "(string \<Rightarrow> string \<Rightarrow> string) \<Rightarrow> addr \<Rightarrow> addr
    \<Rightarrow> VariableTable \<Rightarrow> error + VariableTable" where
  "mergeSets mrg a b t = mergeLoop mrg a b (map fst (variables (sets t ! b))) t"

fun pruneLoop :: "(string \<Rightarrow> string \<Rightarrow> string) \<Rightarrow> addr \<Rightarrow> addr list
    \<Rightarrow> VariableTable \<Rightarrow> error + VariableTable" where
  "pruneLoop mrg node [] t = Inr t"
| "pruneLoop mrg node (b # bs) t =
     (case mergeSets mrg node b t of Inl e \<Rightarrow> Inl e | Inr t' \<Rightarrow> pruneLoop mrg node bs t')"

definition pruneBranches :: "(string \<Rightarrow> string \<Rightarrow> string) \<Rightarrow> VariableTable
    \<Rightarrow> error + VariableTable" where
  "pruneBranches mrg t =
     (case top t of
        None \<Rightarrow> Inl TypeError
      | Some node \<Rightarrow>
          pruneLoop mrg node (branches (sets t ! node))
            (t\<lparr>sets := (sets t)[node := (sets t ! node)\<lparr>branches := []\<rparr>]\<rparr>))"

text \<open>
  The tables a client can build: from the constructor by the public methods.
\<close>

inductive reachable :: "(string \<Rightarrow> string \<Rightarrow> string) \<Rightarrow> VariableTable \<Rightarrow> bool"
  for mrg :: "string \<Rightarrow> string \<Rightarrow> string" where
  r_create: "reachable mrg create"
| r_setType: "reachable mrg t \<Longrightarrow> setType v ty t = Inr t' \<Longrightarrow> reachable mrg t'"
| r_pushScope: "reachable mrg t \<Longrightarrow> reachable mrg (pushScope carry t)"
| r_popScope: "reachable mrg t \<Longrightarrow> reachable mrg (popScope t)"
| r_pushBranch: "reachable mrg t \<Longrightarrow> pushBranch t = Inr t' \<Longrightarrow> reachable mrg t'"
| r_popBranch: "reachable mrg t \<Longrightarrow> reachable mrg (popBranch t)"
| r_pruneBranches: "reachable mrg t \<Longrightarrow> pruneBranches mrg t = Inr t' \<Longrightarrow> reachable mrg t'"

text \<open>
  Specification vocabulary. \<open>binding t a x\<close> is the type that set \<open>a\<close> binds \<open>x\<close> to, if
  any; \<open>live\<close> sets are those on the stack or recorded as branches below it; the
  invariant \<open>wf_table\<close> says that the stack is strictly increasing in allocation order,
  that every stored variable object is kept under its own name, that branches are
  younger than their parent and have one parent, and that distinct live sets share no
  variable object.
\<close>

definition binding :: "VariableTable \<Rightarrow> addr \<Rightarrow> string \<Rightarrow> string option" where
  "binding t a x = map_option (\<lambda>c. tv_type (objs t ! c)) (map_of (variables (sets t ! a)) x)"

definition cell :: "VariableTable \<Rightarrow> addr \<Rightarrow> string \<Rightarrow> addr option" where
  "cell t a x = map_of (variables (sets t ! a)) x"

definition cells :: "VariableTable \<Rightarrow> addr \<Rightarrow> addr set" where
  "cells t a = {c. \<exists>x. cell t a x = Some c}"

inductive live :: "VariableTable \<Rightarrow> addr \<Rightarrow> bool" for t :: VariableTable where
  live_stack: "a \<in> set (typeVariableSetStack t) \<Longrightarrow> live t a"
| live_branch: "live t a \<Longrightarrow> b \<in> set (branches (sets t ! a)) \<Longrightarrow> live t b"

definition wf_stack :: "VariableTable \<Rightarrow> bool" where
  "wf_stack t \<longleftrightarrow> sorted_wrt (<) (typeVariableSetStack t) \<and>
     (\<forall>a \<in> set (typeVariableSetStack t). a < length (sets t))"

definition wf_vars :: "VariableTable \<Rightarrow> addr \<Rightarrow> bool" where
  "wf_vars t a \<longleftrightarrow> distinct (map fst (variables (sets t ! a))) \<and>
     (\<forall>x c. cell t a x = Some c \<longrightarrow> c < length (objs t) \<and> tv_name (objs t ! c) = x)"

definition wf_branches :: "VariableTable \<Rightarrow> addr \<Rightarrow> bool" where
  "wf_branches t a \<longleftrightarrow> distinct (branches (sets t ! a)) \<and>
     (\<forall>b \<in> set (branches (sets t ! a)). a < b \<and> b < length (sets t))"

definition wf_parent :: "VariableTable \<Rightarrow> bool" where
  "wf_parent t \<longleftrightarrow> (\<forall>a < length (sets t). \<forall>a' < length (sets t). a \<noteq> a' \<longrightarrow>
     set (branches (sets t ! a)) \<inter> set (branches (sets t ! a')) = {})"

definition wf_own :: "VariableTable \<Rightarrow> bool" where
  "wf_own t \<longleftrightarrow> (\<forall>a a'. live t a \<longrightarrow> live t a' \<longrightarrow> a \<noteq> a' \<longrightarrow> cells t a \<inter> cells t a' = {})"

definition wf_table :: "VariableTable \<Rightarrow> bool" where
  "wf_table t \<longleftrightarrow> wf_stack t \<and> (\<forall>a < length (sets t). wf_vars t a \<and> wf_branches t a) \<and>
     wf_parent t \<and> wf_own t"

definition ext :: "VariableTable \<Rightarrow> VariableTable \<Rightarrow> bool" where
  "ext t t1 \<longleftrightarrow> sets t1 = sets t \<and> typeVariableSetStack t1 = typeVariableSetStack t \<and>
     (\<exists>new. objs t1 = objs t @ new)"

definition stack_cells_valid :: "VariableTable \<Rightarrow> bool" where
  "stack_cells_valid t \<longleftrightarrow>
     (\<forall>a \<in> set (typeVariableSetStack t). \<forall>x c. cell t a x = Some c \<longrightarrow> c < length (objs t))"

definition carried :: "VariableTable \<Rightarrow> VariableTable \<Rightarrow> (string \<times> addr) list \<Rightarrow> bool" where
  "carried t0 t vars \<longleftrightarrow> distinct (map fst vars) \<and>
     (\<forall>x c. map_of vars x = Some c \<longrightarrow>
        length (objs t0) \<le> c \<and> c < length (objs t) \<and> tv_name (objs t ! c) = x \<and>
        tv_type (objs t ! c) = getType t0 x None \<and> getType t0 x None \<noteq> [])"

text \<open>
  The join of two optional types under \<open>mrg\<close>: an absent one is neutral.
\<close>

definition join2 :: "(string \<Rightarrow> string \<Rightarrow> string) \<Rightarrow> string option \<Rightarrow> string option
    \<Rightarrow> string option" where
  "join2 mrg p q =
     (case q of None \<Rightarrow> p
      | Some ty \<Rightarrow> (case p of None \<Rightarrow> Some ty | Some s \<Rightarrow> Some (mrg s ty)))"

text \<open>
  \<open>frame a u u'\<close>: \<open>u'\<close> differs from \<open>u\<close> at most in the variables of set \<open>a\<close> and in the
  types held by variable objects.
\<close>

definition frame :: "addr \<Rightarrow> VariableTable \<Rightarrow> VariableTable \<Rightarrow> bool" where
  "frame a u u' \<longleftrightarrow>
     typeVariableSetStack u' = typeVariableSetStack u \<and>
     length (sets u') = length (sets u) \<and> length (objs u') = length (objs u) \<and>
     (\<forall>s. s \<noteq> a \<longrightarrow> sets u' ! s = sets u ! s) \<and>
     kind (sets u' ! a) = kind (sets u ! a) \<and>
     branches (sets u' ! a) = branches (sets u ! a) \<and>
     (\<forall>c. tv_name (objs u' ! c) = tv_name (objs u ! c))"

text \<open>
  The sets a lookup inspects, given the stack top first: up to and including the first
  set of kind \<open>Scope\<close>.
\<close>

fun visible :: "VariableTable \<Rightarrow> addr list \<Rightarrow> addr list" where
  "visible t [] = []"
| "visible t (a # as) = (if kind (sets t ! a) = Scope then [a] else a # visible t as)"

definition typeIn :: "VariableTable \<Rightarrow> addr \<Rightarrow> string \<Rightarrow> string" where
  "typeIn t a x = (case binding t a x of Some ty \<Rightarrow> ty | None \<Rightarrow> [])"

definition firstBinding :: "VariableTable \<Rightarrow> string \<Rightarrow> addr list \<Rightarrow> string" where
  "firstBinding t x as =
     (case List.find (\<lambda>a. binding t a x \<noteq> None) as of
        None \<Rightarrow> [] | Some a \<Rightarrow> typeIn t a x)"

text \<open>
  Vocabulary for capture by value: a set is \<open>detached\<close> when neither it nor any of its
  variable objects can be reached from the stack; \<open>steps mrg t u\<close> says that \<open>u\<close> comes
  from \<open>t\<close> by any sequence of the public methods.
\<close>

definition liveCells :: "VariableTable \<Rightarrow> addr set" where
  "liveCells u = {c. \<exists>a. live u a \<and> c \<in> cells u a}"

definition step_frame :: "VariableTable \<Rightarrow> VariableTable \<Rightarrow> bool" where
  "step_frame u u' \<longleftrightarrow>
     length (sets u) \<le> length (sets u') \<and> length (objs u) \<le> length (objs u') \<and>
     (\<forall>s < length (sets u). \<not> live u s \<longrightarrow> sets u' ! s = sets u ! s) \<and>
     (\<forall>c < length (objs u). c \<notin> liveCells u \<longrightarrow> objs u' ! c = objs u ! c) \<and>
     (\<forall>a. live u' a \<longrightarrow> (live u a \<or> length (sets u) \<le> a) \<and>
        cells u' a \<subseteq> liveCells u \<union> {c. length (objs u) \<le> c})"

definition detached :: "VariableTable \<Rightarrow> addr \<Rightarrow> bool" where
  "detached u n \<longleftrightarrow> n < length (sets u) \<and> \<not> live u n \<and> cells u n \<inter> liveCells u = {}"

inductive steps :: "(string \<Rightarrow> string \<Rightarrow> string) \<Rightarrow> VariableTable \<Rightarrow> VariableTable \<Rightarrow> bool"
  for mrg :: "string \<Rightarrow> string \<Rightarrow> string" and t :: VariableTable where
  s_refl: "steps mrg t t"
| s_setType: "steps mrg t u \<Longrightarrow> setType v ty u = Inr u' \<Longrightarrow> steps mrg t u'"
| s_pushScope: "steps mrg t u \<Longrightarrow> steps mrg t (pushScope carry u)"
| s_popScope: "steps mrg t u \<Longrightarrow> steps mrg t (popScope u)"
| s_pushBranch: "steps mrg t u \<Longrightarrow> pushBranch u = Inr u' \<Longrightarrow> steps mrg t u'"
| s_popBranch: "steps mrg t u \<Longrightarrow> steps mrg t (popBranch u)"
| s_pruneBranches: "steps mrg t u \<Longrightarrow> pruneBranches mrg u = Inr u' \<Longrightarrow> steps mrg t u'"

definition carriedNames :: "string list option \<Rightarrow> string set" where
  "carriedNames carry = (case carry of None \<Rightarrow> {} | Some cs \<Rightarrow> set cs)"

text \<open>
  Concrete tables used to instantiate the theorems below. \<open>ifElseTable\<close> is the state
  after \<open>pushBranch; setType('$x','int'); popBranch; pushBranch; setType('$x','string');
  popBranch\<close> on a fresh table; \<open>concatMerge\<close> stands in for \<open>TypeString.merge\<close> there.
\<close>

definition concatMerge :: "string \<Rightarrow> string \<Rightarrow> string" where
  "concatMerge a b = a @ ''|'' @ b"

definition ifElseTable :: VariableTable where
  "ifElseTable =
     \<lparr>objs = [\<lparr>tv_name = ''$x'', tv_type = ''int''\<rparr>,
              \<lparr>tv_name = ''$x'', tv_type = ''string''\<rparr>],
      sets = [\<lparr>kind = Scope, variables = [], branches = [1, 2]\<rparr>,
              \<lparr>kind = Branch, variables = [(''$x'', 0)], branches = []\<rparr>,
              \<lparr>kind = Branch, variables = [(''$x'', 1)], branches = []\<rparr>],
      typeVariableSetStack = [0]\<rparr>"

definition nestedTable :: VariableTable where
  "nestedTable =
     \<lparr>objs = [\<lparr>tv_name = ''$a'', tv_type = ''int''\<rparr>,
              \<lparr>tv_name = ''$b'', tv_type = ''string''\<rparr>],
      sets = [\<lparr>kind = Scope, variables = [(''$a'', 0)], branches = []\<rparr>,
              \<lparr>kind = Scope, variables = [(''$b'', 1)], branches = [2]\<rparr>,
              \<lparr>kind = Branch, variables = [], branches = []\<rparr>],
      typeVariableSetStack = [0, 1, 2]\<rparr>"

definition thisTable :: VariableTable where
  "thisTable =
     \<lparr>objs = [\<lparr>tv_name = ''$this'', tv_type = ''Foo''\<rparr>],
      sets = [\<lparr>kind = Scope, variables = [(''$this'', 0)], branches = []\<rparr>],
      typeVariableSetStack = [0]\<rparr>"

definition outerTable :: VariableTable where
  "outerTable =
     \<lparr>objs = [\<lparr>tv_name = ''$a'', tv_type = ''int''\<rparr>],
      sets = [\<lparr>kind = Scope, variables = [(''$a'', 0)], branches = []\<rparr>],
      typeVariableSetStack = [0]\<rparr>"

section \<open>References and symbol resolution (namespace Reference)\<close>

text \<open>
  Modelled from the spec: the enumerations \<open>SymbolKind\<close> and \<open>SymbolModifier\<close>, the
  declaration type \<open>PhpSymbol\<close> (module \<open>./symbol\<close>) and \<open>lsp.Range\<close>/\<open>lsp.Position\<close> are
  imported by the source and not part of it. The model has the fields the source reads:
  kind, name, modifiers, location (only its range) and children; a position is a
  (line, character) pair. The source tests kinds and modifiers as bit flags
  (\<open>x.kind & (Class | Interface | Trait)\<close>); a declaration has one kind, so the test is
  membership in the listed kinds, and the modifier set is a list of flags.
\<close>

datatype SymbolKind =
  SymbolKindNone | Class | Interface | Trait | Constant | Property | Method | Function
  | Parameter | Variable | ClassConstant

datatype SymbolModifier = Anonymous | OtherModifier nat

type_synonym Position = "nat \<times> nat"

record Range =
  range_start :: Position
  range_end :: Position

datatype PhpSymbol =
  PhpSymbol (sym_kind: SymbolKind) (sym_name: string) (sym_modifiers: "SymbolModifier list")
    (sym_location: "Range option") (sym_children: "PhpSymbol list option")

text \<open>
  The interface \<open>Reference\<close>; the optional fields are absent (\<open>None\<close>) after
  \<open>Reference.create\<close>.
\<close>

record Reference =
  ref_kind :: SymbolKind
  ref_name :: string
  ref_range :: Range
  ref_type :: "string option"
  ref_altName :: "string option"
  ref_scope :: "string option"

text \<open>
  The collaborators the source calls and does not define are parameters of the model:
  the symbol store (\<open>find\<close>, \<open>getSymbolTable\<close>), a document's symbol table (\<open>root\<close>,
  \<open>find\<close>), \<open>TypeAggregate.create(store, fqn)\<close> with the \<open>members\<close> function of the
  aggregate it returns (\<open>None\<close> for a falsy result), \<open>TypeString.atomicClassArray\<close>,
  \<open>TypeString.merge\<close>, \<open>PhpSymbol.type\<close> and \<open>util.isInRange\<close>. Nothing is assumed of
  them.
\<close>

record SymbolTable =
  table_root :: PhpSymbol
  table_find :: "(PhpSymbol \<Rightarrow> bool) \<Rightarrow> PhpSymbol option"

record Collaborators =
  store_find :: "string \<Rightarrow> (PhpSymbol \<Rightarrow> bool) \<Rightarrow> PhpSymbol list"
  store_getSymbolTable :: "string \<Rightarrow> SymbolTable option"
  typeAggregate_create :: "string \<Rightarrow> ((PhpSymbol \<Rightarrow> bool) \<Rightarrow> PhpSymbol list) option"
  typeString_atomicClassArray :: "string option \<Rightarrow> string list"
  typeString_merge :: "string \<Rightarrow> string \<Rightarrow> string"
  phpSymbol_type :: "PhpSymbol option \<Rightarrow> error + string"
  util_isInRange :: "Position \<Rightarrow> Position \<Rightarrow> Position \<Rightarrow> int"

definition Reference_create :: "SymbolKind \<Rightarrow> string \<Rightarrow> Range \<Rightarrow> Reference" where
  "Reference_create k n r =
     \<lparr>ref_kind = k, ref_name = n, ref_range = r, ref_type = None, ref_altName = None,
      ref_scope = None\<rparr>"

text \<open>
  JavaScript truthiness of an optional string (\<open>ref.altName\<close>), \<open>ref.type || ''\<close>, and
  \<open>String.prototype.toLowerCase\<close> on ASCII letters.
\<close>

definition truthy :: "string option \<Rightarrow> bool" where
  "truthy s = (case s of None \<Rightarrow> False | Some v \<Rightarrow> v \<noteq> [])"

definition orEmpty :: "string option \<Rightarrow> string" where
  "orEmpty s = (case s of None \<Rightarrow> [] | Some v \<Rightarrow> v)"

definition lowerChar :: "char \<Rightarrow> char" where
  "lowerChar c =
     (case map_of (zip ''ABCDEFGHIJKLMNOPQRSTUVWXYZ'' ''abcdefghijklmnopqrstuvwxyz'') c of
        Some l \<Rightarrow> l
      | None \<Rightarrow> c)"

definition toLowerCase :: "string \<Rightarrow> string" where
  "toLowerCase s = map lowerChar s"

text \<open>
  Modelled from the spec: \<open>isInRange\<close> of module \<open>./util\<close> is not among the sources. The
  spec has position-containment lookup by binary search over the references; the model
  is the three-way comparison of a position with a closed range in (line, character)
  order: negative before the range, positive after it, zero inside. It is used for the
  comparator of \<open>referenceAtPosition\<close> and as the \<open>util.isInRange\<close> of the examples.
\<close>

definition positionLess :: "Position \<Rightarrow> Position \<Rightarrow> bool" where
  "positionLess p q \<longleftrightarrow> fst p < fst q \<or> (fst p = fst q \<and> snd p < snd q)"

definition isInRange :: "Position \<Rightarrow> Position \<Rightarrow> Position \<Rightarrow> int" where
  "isInRange position startRange endRange =
     (if positionLess position startRange then -1
      else if positionLess endRange position then 1
      else 0)"

text \<open>
  A JavaScript \<open>Set\<close> in insertion order, as \<open>Array.from\<close> lists it. \<open>setAdd\<close> is
  \<open>Set.prototype.add\<close> with one argument. \<open>Set.prototype.add.apply(members, args)\<close> calls
  \<open>add\<close> with the elements of \<open>args\<close> as its argument list; \<open>add\<close> reads its first
  argument only, which is \<open>undefined\<close> (\<open>None\<close>) when the list is empty. The elements of
  the resulting array are therefore optional symbols. Object identity of declarations
  is structural equality here.
\<close>

definition setAdd :: "'a \<Rightarrow> 'a list \<Rightarrow> 'a list" where
  "setAdd v members = (if v \<in> set members then members else members @ [v])"

definition setAddApply :: "'a option list \<Rightarrow> 'a list \<Rightarrow> 'a option list" where
  "setAddApply members args = setAdd (case args of [] \<Rightarrow> None | x # _ \<Rightarrow> Some x) members"

definition findMembers :: "Collaborators \<Rightarrow> string option \<Rightarrow> (PhpSymbol \<Rightarrow> bool)
    \<Rightarrow> PhpSymbol option list" where
  "findMembers env scope predicate =
     foldl (\<lambda>members fqn.
              case typeAggregate_create env fqn of
                None \<Rightarrow> members
              | Some typeMembers \<Rightarrow> setAddApply members (typeMembers predicate))
       [] (typeString_atomicClassArray env scope)"

text \<open>
  \<open>findSymbols\<close>, variable case: the predicate handed to \<open>table.find\<close>, and the search of
  the selected declaration's children (\<open>Array.prototype.find\<close>: the first match).
\<close>

definition variableScope :: "Collaborators \<Rightarrow> Reference \<Rightarrow> PhpSymbol \<Rightarrow> bool" where
  "variableScope env ref x \<longleftrightarrow>
     ((sym_kind x = Function \<and> Anonymous \<in> set (sym_modifiers x)) \<or> sym_kind x = Method) \<and>
     (case sym_location x of
        None \<Rightarrow> False
      | Some loc \<Rightarrow>
          util_isInRange env (range_start (ref_range ref)) (range_start loc) (range_end loc) = 0)"

definition findVariable :: "Collaborators \<Rightarrow> Reference \<Rightarrow> string \<Rightarrow> PhpSymbol option list" where
  "findVariable env ref uri =
     (case store_getSymbolTable env uri of
        None \<Rightarrow> []
      | Some table \<Rightarrow>
          (let scope = (case table_find table (variableScope env ref) of
                          Some s \<Rightarrow> s | None \<Rightarrow> table_root table)
           in case sym_children scope of
                None \<Rightarrow> []
              | Some children \<Rightarrow>
                  (case List.find (\<lambda>x. (sym_kind x = Parameter \<or> sym_kind x = Variable) \<and>
                                        sym_name x = ref_name ref) children of
                     None \<Rightarrow> []
                   | Some s \<Rightarrow> [Some s])))"

text \<open>
  \<open>findSymbols\<close> for a reference that is not null. The elements are optional because
  \<open>findMembers\<close> can return \<open>undefined\<close> elements.
\<close>

definition findSymbols :: "Collaborators \<Rightarrow> Reference \<Rightarrow> string \<Rightarrow> PhpSymbol option list" where
  "findSymbols env ref uri =
     (case ref_kind ref of
        Class \<Rightarrow> map Some (store_find env (ref_name ref)
                   (\<lambda>x. sym_kind x = Class \<or> sym_kind x = Interface \<or> sym_kind x = Trait))
      | Interface \<Rightarrow> map Some (store_find env (ref_name ref)
                   (\<lambda>x. sym_kind x = Class \<or> sym_kind x = Interface \<or> sym_kind x = Trait))
      | Trait \<Rightarrow> map Some (store_find env (ref_name ref)
                   (\<lambda>x. sym_kind x = Class \<or> sym_kind x = Interface \<or> sym_kind x = Trait))
      | Function \<Rightarrow>
          (let symbols = store_find env (ref_name ref) (\<lambda>x. sym_kind x = ref_kind ref) in
           map Some (if length symbols < 1 \<and> truthy (ref_altName ref)
                     then store_find env (orEmpty (ref_altName ref)) (\<lambda>x. sym_kind x = ref_kind ref)
                     else symbols))
      | Constant \<Rightarrow>
          (let symbols = store_find env (ref_name ref) (\<lambda>x. sym_kind x = ref_kind ref) in
           map Some (if length symbols < 1 \<and> truthy (ref_altName ref)
                     then store_find env (orEmpty (ref_altName ref)) (\<lambda>x. sym_kind x = ref_kind ref)
                     else symbols))
      | Method \<Rightarrow> findMembers env (ref_scope ref)
          (\<lambda>x. sym_kind x = Method \<and> toLowerCase (sym_name x) = toLowerCase (ref_name ref))
      | Property \<Rightarrow> findMembers env (ref_scope ref)
          (\<lambda>x. sym_kind x = Property \<and> drop 1 (sym_name x) = ref_name ref)
      | ClassConstant \<Rightarrow> findMembers env (ref_scope ref)
          (\<lambda>x. sym_kind x = ClassConstant \<and> sym_name x = ref_name ref)
      | Variable \<Rightarrow> findVariable env ref uri
      | _ \<Rightarrow> [])"

text \<open>
  \<open>toTypeString\<close>; \<open>mergeTypes\<close> is the \<open>reduce\<close> over the symbols found. \<open>PhpSymbol.type\<close>
  is applied to whatever \<open>findSymbols\<close> returned, \<open>undefined\<close> included, and may raise.
\<close>

fun mergeTypes :: "Collaborators \<Rightarrow> string \<Rightarrow> PhpSymbol option list \<Rightarrow> error + string" where
  "mergeTypes env carry [] = Inr carry"
| "mergeTypes env carry (v # vs) =
     (case phpSymbol_type env v of
        Inl e \<Rightarrow> Inl e
      | Inr ty \<Rightarrow> mergeTypes env (typeString_merge env carry ty) vs)"

definition toTypeString :: "Collaborators \<Rightarrow> Reference option \<Rightarrow> string \<Rightarrow> error + string" where
  "toTypeString env r uri =
     (case r of
        None \<Rightarrow> Inr []
      | Some ref \<Rightarrow>
          (case ref_kind ref of
             Class \<Rightarrow> Inr (ref_name ref)
           | Interface \<Rightarrow> Inr (ref_name ref)
           | Trait \<Rightarrow> Inr (ref_name ref)
           | Function \<Rightarrow> mergeTypes env [] (findSymbols env ref uri)
           | Method \<Rightarrow> mergeTypes env [] (findSymbols env ref uri)
           | Property \<Rightarrow> mergeTypes env [] (findSymbols env ref uri)
           | Variable \<Rightarrow> Inr (orEmpty (ref_type ref))
           | _ \<Rightarrow> Inr []))"

section \<open>Node reducers (NodeTransform family)\<close>

text \<open>
  Modelled from the spec: \<open>PhraseType\<close> and \<open>TokenType\<close> are enumerations of the parser
  library, which is not among the sources. The model lists the members the source names
  and keeps all others apart as \<open>OtherPhrase n\<close> and \<open>OtherToken n\<close>. The phrase type of a
  phrase is taken to be truthy, as the source takes it when it tells phrases from tokens
  by \<open>node.phraseType ? ... : null\<close>.
\<close>

datatype PhraseType =
  NamespaceName | QualifiedName | RelativeQualifiedName | FullyQualifiedName
  | SimpleVariable | ListIntrinsic | MemberName | ScopedMemberName | Identifier
  | ArgumentExpressionList | InstanceofTypeDesignator | ClassTypeDesignator | RelativeScope
  | ObjectCreationExpression | FunctionCallExpression | InstanceOfExpression
  | PropertyAccessExpression | MethodCallExpression
  | FunctionDeclaration | MethodDeclaration | ClassDeclaration | TraitDeclaration
  | InterfaceDeclaration | AnonymousClassDeclaration | AnonymousFunctionCreationExpression
  | IfStatement | SwitchStatement | CaseStatement | DefaultStatement | ElseIfClause
  | ElseClause | ElseIfClauseList | SimpleAssignmentExpression | ByRefAssignmentExpression
  | ForeachStatement | CatchClause | OtherPhrase nat

datatype TokenType =
  VariableName | Name | ColonColon | Arrow | Whitespace | Comment | DocumentComment
  | OtherToken nat

text \<open>
  The interface \<open>NodeTransform\<close> as the reducers read it: an optional phrase type, an
  optional token type and a value, which is a string or a (possibly undefined)
  reference.
\<close>

datatype TransformValue = StringValue string | ReferenceValue "Reference option"

record NodeTransform =
  phraseType :: "PhraseType option"
  tokenType :: "TokenType option"
  tvalue :: TransformValue

text \<open>
  \<open>QualifiedNameTransform\<close>: the state of the reducer is its \<open>value\<close>; the name resolver's
  \<open>resolveNotFullyQualified\<close> is a parameter.
\<close>

definition QualifiedNameTransform_create :: "SymbolKind \<Rightarrow> Range \<Rightarrow> Reference" where
  "QualifiedNameTransform_create symbolKind rng = Reference_create symbolKind [] rng"

definition QualifiedNameTransform_push :: "(string \<Rightarrow> SymbolKind \<Rightarrow> string) \<Rightarrow> Reference
    \<Rightarrow> NodeTransform \<Rightarrow> Reference" where
  "QualifiedNameTransform_push resolveNotFullyQualified this transform =
     (if phraseType transform = Some NamespaceName then
        (case tvalue transform of
           StringValue name \<Rightarrow>
             (let resolved = this\<lparr>ref_name := resolveNotFullyQualified name (ref_kind this)\<rparr> in
              if (ref_kind resolved = Function \<or> ref_kind resolved = Constant) \<and>
                 name \<noteq> ref_name resolved
              then resolved\<lparr>ref_altName := Some name\<rparr>
              else resolved)
         | ReferenceValue _ \<Rightarrow> this)
      else this)"

text \<open>
  Modelled from the spec: \<open>SymbolTable.find\<close> (module \<open>./symbolStore\<close>) is not among the
  sources. For the example document it is the first declaration in document (pre-)order
  that satisfies the predicate. The other definitions are a small symbol database: a
  global function \<open>strlen\<close>, a resolver that prefixes the namespace \<open>App\<close>, classes \<open>A\<close>
  and \<open>B\<close> with their methods, and a document holding the named function \<open>foo\<close> with
  parameter \<open>$a\<close>.
\<close>

fun preorderFind :: "(PhpSymbol \<Rightarrow> bool) \<Rightarrow> PhpSymbol \<Rightarrow> PhpSymbol option"
  and preorderFindList :: "(PhpSymbol \<Rightarrow> bool) \<Rightarrow> PhpSymbol list \<Rightarrow> PhpSymbol option" where
  "preorderFind p (PhpSymbol k n m l cs) =
     (if p (PhpSymbol k n m l cs) then Some (PhpSymbol k n m l cs)
      else case cs of None \<Rightarrow> None | Some children \<Rightarrow> preorderFindList p children)"
| "preorderFindList p [] = None"
| "preorderFindList p (s # ss) =
     (case preorderFind p s of Some r \<Rightarrow> Some r | None \<Rightarrow> preorderFindList p ss)"

definition exRange :: Range where
  "exRange = \<lparr>range_start = (1, 4), range_end = (1, 6)\<rparr>"

definition globalStrlen :: PhpSymbol where
  "globalStrlen = PhpSymbol Function ''strlen'' [] None None"

definition namespacedResolver :: "string \<Rightarrow> SymbolKind \<Rightarrow> string" where
  "namespacedResolver name k = ''App'' @ [CHR 0x5C] @ name"

definition methodBar :: PhpSymbol where
  "methodBar = PhpSymbol Method ''bar'' [] None None"

definition methodFooOwn :: PhpSymbol where
  "methodFooOwn = PhpSymbol Method ''foo'' [] None None"

definition methodFooInherited :: PhpSymbol where
  "methodFooInherited = PhpSymbol Method ''FOO'' [] None None"

definition paramA :: PhpSymbol where
  "paramA = PhpSymbol Parameter ''$a'' []
     (Some \<lparr>range_start = (0, 13), range_end = (0, 15)\<rparr>) None"

definition functionFoo :: PhpSymbol where
  "functionFoo = PhpSymbol Function ''foo'' []
     (Some \<lparr>range_start = (0, 0), range_end = (2, 1)\<rparr>) (Some [paramA])"

definition fileRoot :: PhpSymbol where
  "fileRoot = PhpSymbol SymbolKindNone [] [] None (Some [functionFoo])"

definition exStore :: Collaborators where
  "exStore =
     \<lparr>store_find = (\<lambda>name p. filter p (if name = ''strlen'' then [globalStrlen] else [])),
      store_getSymbolTable =
        (\<lambda>uri. Some \<lparr>table_root = fileRoot, table_find = (\<lambda>p. preorderFind p fileRoot)\<rparr>),
      typeAggregate_create =
        (\<lambda>fqn. if fqn = ''A'' then Some (\<lambda>p. filter p [methodBar])
               else if fqn = ''B'' then Some (\<lambda>p. filter p [methodFooOwn, methodFooInherited])
               else None),
      typeString_atomicClassArray =
        (\<lambda>scope. if scope = Some ''A'' then [''A'']
                 else if scope = Some ''B'' then [''B''] else []),
      typeString_merge = concatMerge,
      phpSymbol_type = (\<lambda>s. Inr []),
      util_isInRange = isInRange\<rparr>"

definition methodRef :: "string \<Rightarrow> Reference" where
  "methodRef scope = (Reference_create Method ''foo'' exRange)\<lparr>ref_scope := Some scope\<rparr>"

definition variableRef :: Reference where
  "variableRef = Reference_create Variable ''$a'' exRange"

section \<open>Syntax trees and the traversal driver\<close>

text \<open>
  Modelled from the spec: the syntax tree (\<open>Phrase | Token\<close> of the parser library) and
  the document services \<open>doc.nodeRange\<close>, \<open>doc.nodeText\<close>, \<open>ParsedDocument.isOffsetInNode\<close>
  and \<open>ParsedDocument.isPhrase\<close> are not among the sources. A node carries what these
  services and the visitor read of it: its range, its first and last character offset,
  its text, the phrase type of its \<open>left\<close> operand (assignments), and whether its
  \<open>elseClause\<close> and \<open>elseIfClauseList\<close> fields are set (if statements). An offset is in a
  node when it lies between the node's first and last offset, bounds included.
\<close>

record NodeInfo =
  nodeRange :: Range
  startOffset :: nat
  endOffset :: nat
  nodeText :: string
  leftPhrase :: "PhraseType option"
  elseClause :: bool
  elseIfClauseList :: bool

datatype Node = Phrase PhraseType NodeInfo "Node list" | Token TokenType NodeInfo

fun infoOf :: "Node \<Rightarrow> NodeInfo" where
  "infoOf (Phrase pt i cs) = i"
| "infoOf (Token tt i) = i"

definition isOffsetInNode :: "int \<Rightarrow> Node \<Rightarrow> bool" where
  "isOffsetInNode offset node \<longleftrightarrow>
     int (startOffset (infoOf node)) \<le> offset \<and> offset \<le> int (endOffset (infoOf node))"

text \<open>
  Modelled from the spec: the traversal driver (\<open>TreeTraverser\<close>, \<open>MultiVisitor\<close> and the
  interface \<open>TreeVisitor\<close> of module \<open>./types\<close>) is not among the sources. The spec has a
  depth-first walk in document order that calls \<open>preorder\<close> on entering a node, descends
  into the children when it returns true, calls \<open>postorder\<close> on leaving the node, hands
  both the spine of ancestors (root first), and stops as soon as the visitor signals a
  halt. A visitor is a pair of state transformers that may raise, with the halt signal
  read off the state; an exception raised by the visitor ends the walk.
\<close>

record 'st TreeVisitor =
  preorder :: "Node \<Rightarrow> Node list \<Rightarrow> 'st \<Rightarrow> error + bool \<times> 'st"
  postorder :: "Node \<Rightarrow> Node list \<Rightarrow> 'st \<Rightarrow> error + 'st"
  halted :: "'st \<Rightarrow> bool"

fun traverse :: "'st TreeVisitor \<Rightarrow> Node \<Rightarrow> Node list \<Rightarrow> 'st \<Rightarrow> error + 'st"
  and traverseChildren :: "'st TreeVisitor \<Rightarrow> Node list \<Rightarrow> Node list \<Rightarrow> 'st \<Rightarrow> error + 'st"
  where
  "traverse v (Token tt i) spine st =
     (if halted v st then Inr st
      else case preorder v (Token tt i) spine st of
        Inl e \<Rightarrow> Inl e
      | Inr (descend, st1) \<Rightarrow>
          if halted v st1 then Inr st1 else postorder v (Token tt i) spine st1)"
| "traverse v (Phrase pt i cs) spine st =
     (if halted v st then Inr st
      else case preorder v (Phrase pt i cs) spine st of
        Inl e \<Rightarrow> Inl e
      | Inr (descend, st1) \<Rightarrow>
          if halted v st1 then Inr st1
          else if descend then
            (case traverseChildren v cs (spine @ [Phrase pt i cs]) st1 of
               Inl e \<Rightarrow> Inl e
             | Inr st2 \<Rightarrow>
                 if halted v st2 then Inr st2 else postorder v (Phrase pt i cs) spine st2)
          else postorder v (Phrase pt i cs) spine st1)"
| "traverseChildren v [] spine st = Inr st"
| "traverseChildren v (c # cs) spine st =
     (case traverse v c spine st of
        Inl e \<Rightarrow> Inl e
      | Inr st1 \<Rightarrow> if halted v st1 then Inr st1 else traverseChildren v cs spine st1)"

subsection \<open>Class ReferenceVisitor\<close>

text \<open>
  The class body defines \<open>preorder\<close> and \<open>postorder\<close> twice (lines 74 and 139, then lines
  172 and 210). In JavaScript the later definition of a method replaces the earlier one,
  so the methods of a \<open>ReferenceVisitor\<close> are the second pair; they are embedded here as
  \<open>preorder2\<close> and \<open>postorder2\<close>. The first pair, which holds the variable-table
  transitions and the halt test, never runs and is not part of the model.

  A non-null entry of \<open>_transformerStack\<close> is an object with the methods \<open>value()\<close> and
  \<open>push(x, node)\<close>. No class with these methods is among the sources, so an entry carries
  the result of its \<open>value()\<close>, and \<open>push\<close> is a parameter of which nothing is assumed;
  it may raise. What is pushed to a parent is the (possibly falsy) reference of a name
  phrase, or the text of a namespace name.
\<close>

record NameTransformer =
  nt_value :: "Reference option"

datatype Pushed = PushedReference "Reference option" | PushedText string

record ReferenceContext =
  transformerPush :: "NameTransformer \<Rightarrow> Pushed \<Rightarrow> Node \<Rightarrow> error + NameTransformer"

text \<open>
  The fields of the class. \<open>haltAtOffset\<close> and \<open>haltTraverse\<close> are properties that only
  the first \<open>preorder\<close> mentions (\<open>this.haltAtOffset\<close>, \<open>this.haltTraverse = true\<close>); the
  class declares neither and the constructor sets neither, so a fresh visitor has no
  halt offset (\<open>None\<close>) and a falsy halt signal. Modelled from the spec: the halt offset
  is an optional input of the traversal, and \<open>haltTraverse\<close> is the signal that the
  driver obeys.
\<close>

record ReferenceVisitor =
  references :: "Reference list"
  transformerStack :: "NameTransformer option list"
  variableTable :: VariableTable
  haltAtOffset :: "int option"
  haltTraverse :: bool

definition ReferenceVisitor_create :: ReferenceVisitor where
  "ReferenceVisitor_create =
     \<lparr>references = [], transformerStack = [], variableTable = create,
      haltAtOffset = None, haltTraverse = False\<rparr>"

definition isNamePhrase :: "PhraseType \<Rightarrow> bool" where
  "isNamePhrase pt \<longleftrightarrow>
     pt = FullyQualifiedName \<or> pt = RelativeQualifiedName \<or> pt = QualifiedName"

text \<open>
  \<open>preorder\<close> (lines 172-208). For a name phrase the source evaluates
  \<open>new FullyQualifiedNameTransformer(...)\<close>, \<open>new RelativeQualifiedNameTransformer(...)\<close> or
  \<open>new QualifiedNameTransformer(...)\<close>. No import and no declaration of the module binds
  these three identifiers (the imports and the classes of the module are named
  \<open>...Transform\<close>), so evaluating the constructor expression raises a \<open>ReferenceError\<close>
  before any argument is evaluated and before anything is pushed. Any other phrase
  pushes \<open>null\<close>; the walk descends unless the phrase is a \<open>NamespaceName\<close>. A token has
  no \<open>phraseType\<close> and nothing happens.
\<close>

fun preorder2 :: "Node \<Rightarrow> Node list \<Rightarrow> ReferenceVisitor \<Rightarrow> error + bool \<times> ReferenceVisitor" where
  "preorder2 (Token tt i) spine st = Inr (False, st)"
| "preorder2 (Phrase pt i cs) spine st =
     (if isNamePhrase pt then Inl ReferenceError
      else if pt = NamespaceName then
        Inr (False, st\<lparr>transformerStack := transformerStack st @ [None]\<rparr>)
      else Inr (True, st\<lparr>transformerStack := transformerStack st @ [None]\<rparr>))"

text \<open>
  \<open>postorder\<close> (lines 210-243). A phrase pops its own entry (\<open>undefined\<close> from an empty
  stack); the parent's entry is then the last one, or \<open>null\<close>. A name phrase calls
  \<open>value()\<close> on its entry, which raises a \<open>TypeError\<close> when the entry is \<open>null\<close> or
  \<open>undefined\<close>, appends a truthy result to \<open>_references\<close> and pushes the result to the
  parent's entry, if that is not null. A \<open>NamespaceName\<close> pushes its text to the parent's
  entry. The phrase type of a phrase is taken to be truthy.
\<close>

definition pushToParent :: "ReferenceContext \<Rightarrow> NameTransformer option list \<Rightarrow> Pushed \<Rightarrow> Node
    \<Rightarrow> error + NameTransformer option list" where
  "pushToParent ctx stack v node =
     (if stack = [] then Inr stack
      else case last stack of
        None \<Rightarrow> Inr stack
      | Some parentTransformer \<Rightarrow>
          (case transformerPush ctx parentTransformer v node of
             Inl e \<Rightarrow> Inl e
           | Inr p \<Rightarrow> Inr (butlast stack @ [Some p])))"

fun postorder2 :: "ReferenceContext \<Rightarrow> Node \<Rightarrow> Node list \<Rightarrow> ReferenceVisitor
    \<Rightarrow> error + ReferenceVisitor" where
  "postorder2 ctx (Token tt i) spine st = Inr st"
| "postorder2 ctx (Phrase pt i cs) spine st =
     (let transformer = (if transformerStack st = [] then None else last (transformerStack st));
          stack1 = butlast (transformerStack st)
      in if isNamePhrase pt then
           (case transformer of
              None \<Rightarrow> Inl TypeError
            | Some tr \<Rightarrow>
                (case pushToParent ctx stack1 (PushedReference (nt_value tr)) (Phrase pt i cs) of
                   Inl e \<Rightarrow> Inl e
                 | Inr stack2 \<Rightarrow>
                     Inr (st\<lparr>references :=
                              (case nt_value tr of
                                 None \<Rightarrow> references st
                               | Some transform \<Rightarrow> references st @ [transform]),
                            transformerStack := stack2\<rparr>)))
         else if pt = NamespaceName then
           (case pushToParent ctx stack1 (PushedText (nodeText i)) (Phrase pt i cs) of
              Inl e \<Rightarrow> Inl e
            | Inr stack2 \<Rightarrow> Inr (st\<lparr>transformerStack := stack2\<rparr>))
         else Inr (st\<lparr>transformerStack := stack1\<rparr>))"

text \<open>
  The visitor as the driver sees it, and a full traversal of a tree by a fresh visitor,
  returning the array that the getter \<open>references\<close> wraps in a \<open>DocumentReferences\<close>.
\<close>

definition referenceVisitor :: "ReferenceContext \<Rightarrow> ReferenceVisitor TreeVisitor" where
  "referenceVisitor ctx =
     \<lparr>preorder = preorder2, postorder = postorder2 ctx, halted = haltTraverse\<rparr>"

definition collectReferences :: "ReferenceContext \<Rightarrow> Node \<Rightarrow> error + Reference list" where
  "collectReferences ctx tree =
     (case traverse (referenceVisitor ctx) tree [] ReferenceVisitor_create of
        Inl e \<Rightarrow> Inl e
      | Inr st \<Rightarrow> Inr (references st))"

text \<open>
  Specification vocabulary. \<open>reachesName\<close>: the walk, which does not descend below a
  \<open>NamespaceName\<close>, reaches a name phrase of the tree. \<open>nullStack\<close>: every entry of the
  reducer stack is \<open>null\<close>. \<open>inert\<close>: started with such a stack and no halt signal, the
  walk of the node raises a \<open>ReferenceError\<close> if it reaches a name phrase and otherwise
  returns the visitor as it was. \<open>isSpecialCase\<close>: the nodes to which the halt test of the first
  \<open>preorder\<close> is attached (lines 108-123), an assignment whose left operand is a simple
  variable or a list intrinsic, and an \<open>instanceof\<close> expression.
\<close>

fun reachesName :: "Node \<Rightarrow> bool" and reachesNameList :: "Node list \<Rightarrow> bool" where
  "reachesName (Token tt i) \<longleftrightarrow> False"
| "reachesName (Phrase pt i cs) \<longleftrightarrow>
     isNamePhrase pt \<or> (pt \<noteq> NamespaceName \<and> reachesNameList cs)"
| "reachesNameList [] \<longleftrightarrow> False"
| "reachesNameList (c # cs) \<longleftrightarrow> reachesName c \<or> reachesNameList cs"

definition nullStack :: "ReferenceVisitor \<Rightarrow> bool" where
  "nullStack st \<longleftrightarrow> list_all (\<lambda>t. t = None) (transformerStack st)"

definition inert :: "ReferenceContext \<Rightarrow> Node \<Rightarrow> bool" where
  "inert ctx n \<longleftrightarrow> (\<forall>sp st. nullStack st \<longrightarrow> \<not> haltTraverse st \<longrightarrow>
     traverse (referenceVisitor ctx) n sp st =
       (if reachesName n then Inl ReferenceError else Inr st))"

definition inertList :: "ReferenceContext \<Rightarrow> Node list \<Rightarrow> bool" where
  "inertList ctx cs \<longleftrightarrow> (\<forall>sp st. nullStack st \<longrightarrow> \<not> haltTraverse st \<longrightarrow>
     traverseChildren (referenceVisitor ctx) cs sp st =
       (if reachesNameList cs then Inl ReferenceError else Inr st))"

definition isSpecialCase :: "Node \<Rightarrow> bool" where
  "isSpecialCase node =
     (case node of
        Token tt i \<Rightarrow> False
      | Phrase pt i cs \<Rightarrow>
          ((pt = SimpleAssignmentExpression \<or> pt = ByRefAssignmentExpression) \<and>
           (leftPhrase i = Some SimpleVariable \<or> leftPhrase i = Some ListIntrinsic)) \<or>
          pt = InstanceOfExpression)"

subsection \<open>Class DocumentReferences\<close>

text \<open>
  \<open>DocumentReferences\<close> keeps the array it is given. Modelled from the spec: the class
  \<open>BinarySearch\<close> (module \<open>./types\<close>) is not among the sources. After the spec the lookup
  is a binary search over the array with the three-way comparison
  \<open>isInRange(position, x.range.start, x.range.end)\<close>, returning a reference whose range
  contains the position, or nothing. \<open>bsearch\<close> searches the indices \<open>left\<close> to \<open>right\<close>:
  it compares at the middle index, returns the element there on \<open>0\<close>, and continues
  in the upper half when the position lies after the element and in the lower half when
  it lies before it.
\<close>

record DocumentReferences =
  dr_uri :: string
  dr_references :: "Reference list"






definition filterReferences :: "DocumentReferences \<Rightarrow> (Reference \<Rightarrow> bool) \<Rightarrow> Reference list" where
  "filterReferences dr predicate = filter predicate (dr_references dr)"





text \<open>
  Example trees: \<open>new Foo(Bar::X)\<close> with two name phrases; the statement \<open>$x = 1;\<close> at
  character offset \<open>off\<close>; two such statements; and such a statement followed by the
  call \<open>foo();\<close>. Three references on one line serve as an example array, and
  \<open>exContext\<close> is a \<open>push\<close> that does nothing.
\<close>

definition exInfo :: "Position \<Rightarrow> Position \<Rightarrow> string \<Rightarrow> NodeInfo" where
  "exInfo s e txt =
     \<lparr>nodeRange = \<lparr>range_start = s, range_end = e\<rparr>, startOffset = snd s, endOffset = snd e,
      nodeText = txt, leftPhrase = None, elseClause = False, elseIfClauseList = False\<rparr>"

definition exNameTree :: Node where
  "exNameTree =
     Phrase (OtherPhrase 0) (exInfo (0, 0) (0, 20) ''new Foo(Bar::X)'')
       [Token (OtherToken 0) (exInfo (0, 0) (0, 3) ''new''),
        Phrase QualifiedName (exInfo (0, 4) (0, 7) ''Foo'')
          [Phrase NamespaceName (exInfo (0, 4) (0, 7) ''Foo'')
             [Token Name (exInfo (0, 4) (0, 7) ''Foo'')]],
        Phrase (OtherPhrase 1) (exInfo (0, 8) (0, 14) ''Bar::X'')
          [Phrase FullyQualifiedName (exInfo (0, 8) (0, 11) ''Bar'')
             [Phrase NamespaceName (exInfo (0, 8) (0, 11) ''Bar'')
                [Token Name (exInfo (0, 8) (0, 11) ''Bar'')]]]]"

definition exAssignment :: "nat \<Rightarrow> Node" where
  "exAssignment off =
     Phrase SimpleAssignmentExpression
       ((exInfo (0, off) (0, off + 6) ''$x = 1;'')\<lparr>leftPhrase := Some SimpleVariable\<rparr>)
       [Phrase SimpleVariable (exInfo (0, off) (0, off + 2) ''$x'')
          [Token VariableName (exInfo (0, off) (0, off + 2) ''$x'')],
        Token (OtherToken 1) (exInfo (0, off + 3) (0, off + 4) ''=''),
        Token (OtherToken 2) (exInfo (0, off + 5) (0, off + 6) ''1'')]"

definition exStatements :: Node where
  "exStatements =
     Phrase (OtherPhrase 0) (exInfo (0, 0) (0, 14) ''$x = 1; $x = 1;'')
       [exAssignment 0, exAssignment 8]"

definition exCall :: Node where
  "exCall =
     Phrase FunctionCallExpression (exInfo (0, 8) (0, 13) ''foo();'')
       [Phrase QualifiedName (exInfo (0, 8) (0, 11) ''foo'')
          [Phrase NamespaceName (exInfo (0, 8) (0, 11) ''foo'')
             [Token Name (exInfo (0, 8) (0, 11) ''foo'')]],
        Token (OtherToken 3) (exInfo (0, 11) (0, 12) ''(''),
        Token (OtherToken 4) (exInfo (0, 12) (0, 13) '')'')]"

definition exAssignmentThenCall :: Node where
  "exAssignmentThenCall =
     Phrase (OtherPhrase 0) (exInfo (0, 0) (0, 13) ''$x = 1; foo();'')
       [exAssignment 0, exCall]"




lemma live_valid:
  assumes "wf_stack t" "\<forall>a < length (sets t). wf_branches t a" "live t a"
  shows "a < length (sets t)"
  using assms(3)
proof (induction rule: live.induct)
  case (live_stack a)
  then show ?case using assms(1) by (simp add: wf_stack_def)
next
  case (live_branch a b)
  from live_branch.IH assms(2) have "wf_branches t a" by blast
  with live_branch.hyps(2) show ?case unfolding wf_branches_def by blast
qed

lemma live_mono:
  assumes "live t a"
    and "set (typeVariableSetStack t) \<subseteq> set (typeVariableSetStack t')"
    and "\<And>p. live t p \<Longrightarrow> set (branches (sets t ! p)) \<subseteq> set (branches (sets t' ! p))"
  shows "live t' a"
  using assms(1)
proof (induction rule: live.induct)
  case (live_stack a)
  then have "a \<in> set (typeVariableSetStack t')" using assms(2) by blast
  then show ?case by (rule live.live_stack)
next
  case (live_branch a b)
  from live_branch.hyps(1) live_branch.hyps(2) assms(3)
  have "b \<in> set (branches (sets t' ! a))" by blast
  with live_branch.IH show ?case by (rule live.live_branch)
qed

lemma wf_create: "wf_table create"
proof -
  have "live create a \<Longrightarrow> a = 0" for a
    by (induction rule: live.induct) (simp_all add: create_def)
  then have "wf_own create" unfolding wf_own_def by blast
  moreover have "wf_stack create" by (simp add: wf_stack_def create_def)
  moreover have "wf_parent create" by (simp add: wf_parent_def create_def)
  moreover have "wf_vars create 0" by (simp add: wf_vars_def create_def cell_def)
  moreover have "wf_branches create 0" by (simp add: wf_branches_def create_def)
  moreover have "length (sets create) = 1" by (simp add: create_def)
  ultimately show ?thesis by (simp add: wf_table_def)
qed

lemma top_Some: "top t = Some a \<longleftrightarrow> typeVariableSetStack t \<noteq> [] \<and> a = last (typeVariableSetStack t)"
  by (auto simp: top_def)

lemma top_in_stack: "top t = Some a \<Longrightarrow> a \<in> set (typeVariableSetStack t)"
  by (simp add: top_Some)

lemma top_valid: "wf_stack t \<Longrightarrow> top t = Some a \<Longrightarrow> a < length (sets t)"
  using top_in_stack by (auto simp: wf_stack_def)

lemma live_eqI:
  assumes "typeVariableSetStack t' = typeVariableSetStack t"
    and "\<And>p. branches (sets t' ! p) = branches (sets t ! p)"
  shows "live t' = live t"
proof (rule ext, rule iffI)
  fix a assume "live t' a"
  then show "live t a" by (rule live_mono) (simp_all add: assms)
next
  fix a assume "live t a"
  then show "live t' a" by (rule live_mono) (simp_all add: assms)
qed

lemma wf_table_live_valid: "wf_table t \<Longrightarrow> live t a \<Longrightarrow> a < length (sets t)"
  using live_valid by (simp add: wf_table_def)

lemma wf_table_cells_valid:
  "wf_table t \<Longrightarrow> a < length (sets t) \<Longrightarrow> c \<in> cells t a \<Longrightarrow> c < length (objs t)"
  by (auto simp: wf_table_def wf_vars_def cells_def)

lemma setType_cases:
  assumes "setType v ty t = Inr t'"
  obtains (noop) "t' = t"
  | (upd) a where "top t = Some a" "v \<noteq> []" "ty \<noteq> []"
      "t' = t\<lparr>objs := objs t @ [\<lparr>tv_name = v, tv_type = ty\<rparr>],
              sets := (sets t)[a := (sets t ! a)
                \<lparr>variables := AList.update v (length (objs t)) (variables (sets t ! a))\<rparr>]\<rparr>"
proof (cases "v = [] \<or> ty = []")
  case True
  then have "t' = t" using assms by (simp add: setType_def)
  then show thesis by (rule noop)
next
  case False
  then have ne: "v \<noteq> []" "ty \<noteq> []" by simp_all
  show thesis
  proof (cases "top t")
    case None
    then show thesis using assms ne by (simp add: setType_def)
  next
    case (Some a)
    then have "t' = t\<lparr>objs := objs t @ [\<lparr>tv_name = v, tv_type = ty\<rparr>],
              sets := (sets t)[a := (sets t ! a)
                \<lparr>variables := AList.update v (length (objs t)) (variables (sets t ! a))\<rparr>]\<rparr>"
      using assms ne by (simp add: setType_def)
    with Some ne show thesis by (rule upd)
  qed
qed

lemma setType_wf:
  assumes wf: "wf_table t" and st: "setType v ty t = Inr t'"
  shows "wf_table t'"
  using st
proof (cases rule: setType_cases)
  case noop
  then show ?thesis using wf by simp
next
  case (upd a)
  let ?n = "length (objs t)"
  have a: "a < length (sets t)" using wf upd(1) top_valid by (simp add: wf_table_def)
  have stack: "typeVariableSetStack t' = typeVariableSetStack t" by (simp add: upd(4))
  have len: "length (sets t') = length (sets t)" by (simp add: upd(4))
  have olen: "length (objs t') = Suc ?n" by (simp add: upd(4))
  have old: "objs t' ! c = objs t ! c" if "c < ?n" for c
    using that by (simp add: upd(4) nth_append)
  have new: "tv_name (objs t' ! ?n) = v" by (simp add: upd(4))
  have other: "sets t' ! s = sets t ! s" if "s \<noteq> a" for s
    using that by (simp add: upd(4))
  have br: "branches (sets t' ! s) = branches (sets t ! s)" for s
    using a by (cases "s = a") (simp_all add: upd(4))
  have cell: "cell t' s x = (if s = a \<and> x = v then Some ?n else cell t s x)" for s x
    using a by (cases "s = a") (simp_all add: upd(4) cell_def update_conv')
  have cellD: "(c = ?n \<and> x = v \<and> s = a) \<or> cell t s x = Some c"
    if "cell t' s x = Some c" for s x c
    using that by (cases "s = a \<and> x = v") (simp_all add: cell)
  have keys: "distinct (map fst (variables (sets t' ! s)))"
    if "distinct (map fst (variables (sets t ! s)))" for s
    using that a by (cases "s = a") (simp_all add: upd(4) distinct_update)
  have lv: "live t' = live t" by (rule live_eqI) (simp_all add: stack br)
  have "wf_stack t'" using wf by (simp add: wf_table_def wf_stack_def stack len)
  moreover have "wf_vars t' s \<and> wf_branches t' s" if "s < length (sets t')" for s
  proof -
    from that wf have ws: "wf_vars t s" "wf_branches t s" by (simp_all add: wf_table_def len)
    have "wf_branches t' s" using ws(2) by (simp add: wf_branches_def br len)
    moreover have "wf_vars t' s"
      unfolding wf_vars_def
    proof (intro conjI allI impI)
      from ws(1) have "distinct (map fst (variables (sets t ! s)))"
        unfolding wf_vars_def by (rule conjunct1)
      then show "distinct (map fst (variables (sets t' ! s)))" by (rule keys)
    next
      fix x c assume "cell t' s x = Some c"
      then consider "c = ?n" "x = v" | "cell t s x = Some c"
        using cellD by blast
      then show "c < length (objs t')"
      proof cases
        case 1 then show ?thesis by (simp add: olen)
      next
        case 2
        with ws(1) have "c < ?n" unfolding wf_vars_def by blast
        then show ?thesis by (simp add: olen)
      qed
    next
      fix x c assume "cell t' s x = Some c"
      then consider "c = ?n" "x = v" | "cell t s x = Some c"
        using cellD by blast
      then show "tv_name (objs t' ! c) = x"
      proof cases
        case 1 then show ?thesis by (simp add: new)
      next
        case 2
        with ws(1) have "c < ?n" "tv_name (objs t ! c) = x" unfolding wf_vars_def by blast+
        then show ?thesis by (simp add: old)
      qed
    qed
    ultimately show ?thesis by simp
  qed
  moreover have "wf_parent t'" using wf by (simp add: wf_table_def wf_parent_def br len)
  moreover have "wf_own t'"
    unfolding wf_own_def
  proof (intro allI impI)
    fix p q assume pq: "live t' p" "live t' q" "p \<noteq> q"
    then have lp: "live t p" "live t q" by (simp_all add: lv)
    then have vp: "p < length (sets t)" "q < length (sets t)"
      using wf wf_table_live_valid by blast+
    have dis: "cells t p \<inter> cells t q = {}" using wf lp pq(3) by (simp add: wf_table_def wf_own_def)
    have sub: "cells t' s \<subseteq> insert ?n (cells t s)" for s
      unfolding cells_def using cellD by blast
    have one: "?n \<in> cells t' s \<Longrightarrow> s = a" if "s < length (sets t)" for s
    proof -
      assume "?n \<in> cells t' s"
      then obtain x where "cell t' s x = Some ?n" by (auto simp: cells_def)
      then have "s = a \<or> cell t s x = Some ?n" using cellD by blast
      moreover have "cell t s x \<noteq> Some ?n"
        using wf_table_cells_valid[OF wf that, of ?n] unfolding cells_def by blast
      ultimately show "s = a" by simp
    qed
    show "cells t' p \<inter> cells t' q = {}"
    proof (rule ccontr)
      assume "cells t' p \<inter> cells t' q \<noteq> {}"
      then obtain c where c: "c \<in> cells t' p" "c \<in> cells t' q" by blast
      show False
      proof (cases "c = ?n")
        case True
        with c one vp have "p = a" "q = a" by blast+
        with pq(3) show False by simp
      next
        case False
        with c sub have "c \<in> cells t p" "c \<in> cells t q" by blast+
        with dis show False by blast
      qed
    qed
  qed
  ultimately show ?thesis by (simp add: wf_table_def)
qed

lemma ext_refl: "ext t t"
  by (simp add: ext_def)

lemma ext_snoc: "ext t0 t \<Longrightarrow> ext t0 (t\<lparr>objs := objs t @ [v]\<rparr>)"
  by (auto simp: ext_def)

lemma ext_cell: "ext t t1 \<Longrightarrow> cell t1 a x = cell t a x"
  by (simp add: ext_def cell_def)

lemma ext_obj: "ext t t1 \<Longrightarrow> c < length (objs t) \<Longrightarrow> objs t1 ! c = objs t ! c"
  by (auto simp: ext_def nth_append)

lemma ext_length: "ext t t1 \<Longrightarrow> length (objs t) \<le> length (objs t1)"
  by (auto simp: ext_def)

lemma getTypeLoop_ext:
  assumes "ext t t1" "\<forall>a \<in> set as. \<forall>x c. cell t a x = Some c \<longrightarrow> c < length (objs t)"
  shows "getTypeLoop t1 x as = getTypeLoop t x as"
  using assms(2)
proof (induction as)
  case Nil
  then show ?case by simp
next
  case (Cons a as)
  have s: "sets t1 = sets t" using assms(1) by (simp add: ext_def)
  show ?case
  proof (cases "map_of (variables (sets t ! a)) x")
    case None
    then show ?thesis using Cons s by simp
  next
    case (Some c)
    then have "cell t a x = Some c" by (simp add: cell_def)
    with Cons.prems have "c < length (objs t)" by simp
    then have "objs t1 ! c = objs t ! c" using assms(1) by (rule ext_obj[rotated])
    then show ?thesis using Some s by simp
  qed
qed

lemma getType_ext:
  assumes "ext t t1" "stack_cells_valid t"
  shows "getType t1 x cn = getType t x cn"
proof -
  have st: "typeVariableSetStack t1 = typeVariableSetStack t" using assms(1) by (simp add: ext_def)
  have "getTypeLoop t1 x (rev (typeVariableSetStack t)) = getTypeLoop t x (rev (typeVariableSetStack t))"
    by (rule getTypeLoop_ext[OF assms(1)]) (use assms(2) in \<open>simp add: stack_cells_valid_def\<close>)
  then show ?thesis by (cases cn) (simp_all add: st)
qed

lemma wf_stack_cells_valid: "wf_table t \<Longrightarrow> stack_cells_valid t"
  unfolding stack_cells_valid_def wf_table_def wf_stack_def wf_vars_def by blast

lemma carried_step:
  assumes e: "ext t0 t" and c: "carried t0 t vars" and ty: "getType t0 x None \<noteq> []"
  shows "carried t0 (t\<lparr>objs := objs t @ [\<lparr>tv_name = x, tv_type = getType t0 x None\<rparr>]\<rparr>)
           (AList.update x (length (objs t)) vars)"
proof -
  let ?t = "t\<lparr>objs := objs t @ [\<lparr>tv_name = x, tv_type = getType t0 x None\<rparr>]\<rparr>"
  have d: "distinct (map fst (AList.update x (length (objs t)) vars))"
    using c by (simp add: carried_def distinct_update)
  have "length (objs t0) \<le> d \<and> d < length (objs ?t) \<and> tv_name (objs ?t ! d) = y \<and>
        tv_type (objs ?t ! d) = getType t0 y None \<and> getType t0 y None \<noteq> []"
    if h: "map_of (AList.update x (length (objs t)) vars) y = Some d" for y d
  proof (cases "y = x")
    case True
    with h have "d = length (objs t)" by (simp add: update_conv')
    then show ?thesis using True ty ext_length[OF e] by simp
  next
    case False
    with h have "map_of vars y = Some d" by (simp add: update_conv')
    with c have "length (objs t0) \<le> d \<and> d < length (objs t) \<and> tv_name (objs t ! d) = y \<and>
        tv_type (objs t ! d) = getType t0 y None \<and> getType t0 y None \<noteq> []"
      unfolding carried_def by blast
    then show ?thesis by (simp add: nth_append)
  qed
  with d show ?thesis unfolding carried_def by blast
qed

lemma carryLoop_spec:
  assumes "stack_cells_valid t0" "ext t0 t" "carried t0 t vars" "carryLoop cs vars t = (vars', t1)"
  shows "ext t0 t1 \<and> carried t0 t1 vars' \<and>
     (\<forall>x. map_of vars' x \<noteq> None \<longleftrightarrow>
        map_of vars x \<noteq> None \<or> (x \<in> set cs \<and> getType t0 x None \<noteq> []))"
  using assms(2-4)
proof (induction cs arbitrary: vars t)
  case Nil
  then show ?case by simp
next
  case (Cons c cs)
  have gt: "getType t c None = getType t0 c None"
    using Cons.prems(1) assms(1) by (rule getType_ext)
  show ?case
  proof (cases "getType t0 c None = []")
    case True
    with Cons.prems(3) gt have "carryLoop cs vars t = (vars', t1)" by simp
    from Cons.IH[OF Cons.prems(1,2) this] True show ?thesis by auto
  next
    case False
    let ?t = "t\<lparr>objs := objs t @ [\<lparr>tv_name = c, tv_type = getType t0 c None\<rparr>]\<rparr>"
    let ?vars = "AList.update c (length (objs t)) vars"
    from False Cons.prems(3) gt have run: "carryLoop cs ?vars ?t = (vars', t1)"
      by (simp add: Let_def)
    have e: "ext t0 ?t" using Cons.prems(1) by (rule ext_snoc)
    have cr: "carried t0 ?t ?vars" using Cons.prems(1,2) False by (rule carried_step)
    from Cons.IH[OF e cr run]
    have ih: "ext t0 t1" "carried t0 t1 vars'"
      "\<And>x. map_of vars' x \<noteq> None \<longleftrightarrow>
        map_of ?vars x \<noteq> None \<or> (x \<in> set cs \<and> getType t0 x None \<noteq> [])"
      by blast+
    have "map_of ?vars x \<noteq> None \<longleftrightarrow> map_of vars x \<noteq> None \<or> x = c" for x
      by (simp add: update_conv')
    with ih(3) False
    have "map_of vars' x \<noteq> None \<longleftrightarrow>
        map_of vars x \<noteq> None \<or> (x \<in> set (c # cs) \<and> getType t0 x None \<noteq> [])" for x
      by (cases "x = c") simp_all
    with ih(1,2) show ?thesis by blast
  qed
qed

lemma carried_Nil: "carried t t []"
  by (simp add: carried_def)

lemma pushScope_effect:
  assumes "stack_cells_valid t"
  obtains vars t1 where "ext t t1" "carried t t1 vars"
    "\<forall>x. map_of vars x \<noteq> None \<longleftrightarrow>
       (\<exists>cs. carry = Some cs \<and> x \<in> set cs) \<and> getType t x None \<noteq> []"
    "pushScope carry t =
       t1\<lparr>sets := sets t @ [\<lparr>kind = Scope, variables = vars, branches = []\<rparr>],
          typeVariableSetStack := typeVariableSetStack t @ [length (sets t)]\<rparr>"
proof (cases carry)
  case None
  have h1: "pushScope carry t =
       t\<lparr>sets := sets t @ [\<lparr>kind = Scope, variables = [], branches = []\<rparr>],
          typeVariableSetStack := typeVariableSetStack t @ [length (sets t)]\<rparr>"
    by (simp add: pushScope_def None)
  have h2: "\<forall>x. map_of ([] :: (string \<times> addr) list) x \<noteq> None \<longleftrightarrow>
       (\<exists>cs. carry = Some cs \<and> x \<in> set cs) \<and> getType t x None \<noteq> []"
    by (simp add: None)
  show thesis by (rule that[OF ext_refl carried_Nil h2 h1])
next
  case (Some cs)
  obtain vars t1 where run: "carryLoop cs [] t = (vars, t1)" by (cases "carryLoop cs [] t")
  from carryLoop_spec[OF assms ext_refl carried_Nil run]
  have sp: "ext t t1" "carried t t1 vars"
    "\<forall>x. map_of vars x \<noteq> None \<longleftrightarrow> x \<in> set cs \<and> getType t x None \<noteq> []"
    by simp_all
  have eq: "sets t1 = sets t" "typeVariableSetStack t1 = typeVariableSetStack t"
    using sp(1) by (simp_all add: ext_def)
  have h1: "pushScope carry t =
       t1\<lparr>sets := sets t @ [\<lparr>kind = Scope, variables = vars, branches = []\<rparr>],
          typeVariableSetStack := typeVariableSetStack t @ [length (sets t)]\<rparr>"
    by (simp add: pushScope_def Some run eq)
  have h2: "\<forall>x. map_of vars x \<noteq> None \<longleftrightarrow>
       (\<exists>cs. carry = Some cs \<and> x \<in> set cs) \<and> getType t x None \<noteq> []"
    using sp(3) by (simp add: Some)
  show thesis by (rule that[OF sp(1,2) h2 h1])
qed

lemma sorted_wrt_less_snoc:
  "sorted_wrt (<) (xs @ [n::nat]) \<longleftrightarrow> sorted_wrt (<) xs \<and> (\<forall>x \<in> set xs. x < n)"
  by (simp add: sorted_wrt_append)

lemma pushScope_wf:
  assumes wf: "wf_table t"
  shows "wf_table (pushScope carry t)"
proof -
  let ?N = "length (sets t)"
  let ?M = "length (objs t)"
  obtain vars t1 where e: "ext t t1" and cr: "carried t t1 vars"
    and t': "pushScope carry t =
       t1\<lparr>sets := sets t @ [\<lparr>kind = Scope, variables = vars, branches = []\<rparr>],
          typeVariableSetStack := typeVariableSetStack t @ [?N]\<rparr>"
    using pushScope_effect[OF wf_stack_cells_valid[OF wf]] by metis
  define u where "u = pushScope carry t"
  have stack: "typeVariableSetStack u = typeVariableSetStack t @ [?N]" by (simp add: u_def t')
  have len: "length (sets u) = Suc ?N" by (simp add: u_def t')
  have old: "sets u ! s = sets t ! s" if "s < ?N" for s
    using that by (simp add: u_def t' nth_append)
  have new: "sets u ! ?N = \<lparr>kind = Scope, variables = vars, branches = []\<rparr>"
    by (simp add: u_def t')
  have ob: "objs u = objs t1" by (simp add: u_def t')
  have olen: "?M \<le> length (objs u)" using ext_length[OF e] by (simp add: ob)
  have oold: "objs u ! c = objs t ! c" if "c < ?M" for c
    using ext_obj[OF e that] by (simp add: ob)
  have cold: "cell u s x = cell t s x" if "s < ?N" for s x
    using old[OF that] by (simp add: cell_def)
  have cnew: "cell u ?N x = map_of vars x" for x
    by (simp add: cell_def new)
  have wst: "wf_stack t" and wvb: "\<And>s. s < ?N \<Longrightarrow> wf_vars t s \<and> wf_branches t s"
    and wp: "wf_parent t" and wo: "wf_own t"
    using wf by (simp_all add: wf_table_def)
  have "wf_stack u"
    using wst by (auto simp: wf_stack_def stack len sorted_wrt_less_snoc less_Suc_eq)
  moreover have "wf_vars u s \<and> wf_branches u s" if "s < length (sets u)" for s
  proof (cases "s < ?N")
    case True
    from wvb[OF True] have wv: "wf_vars t s" and wb: "wf_branches t s" by simp_all
    have "wf_branches u s" using wb by (auto simp: wf_branches_def old[OF True] len)
    moreover have "wf_vars u s"
    proof -
      have "distinct (map fst (variables (sets u ! s)))"
        using wv by (simp add: wf_vars_def old[OF True])
      moreover have "c < length (objs u) \<and> tv_name (objs u ! c) = x" if "cell u s x = Some c" for x c
      proof -
        from that have "cell t s x = Some c" by (simp add: cold[OF True])
        with wv have "c < ?M" "tv_name (objs t ! c) = x" unfolding wf_vars_def by blast+
        then show ?thesis using olen oold by simp
      qed
      ultimately show ?thesis unfolding wf_vars_def by blast
    qed
    ultimately show ?thesis by simp
  next
    case False
    with that have s: "s = ?N" by (simp add: len)
    have "wf_branches u s" by (simp add: wf_branches_def s new)
    moreover have "wf_vars u s"
      using cr unfolding wf_vars_def carried_def s by (simp add: new cnew ob)
    ultimately show ?thesis by simp
  qed
  moreover have "wf_parent u"
    unfolding wf_parent_def
  proof (intro allI impI)
    fix a a' assume h: "a < length (sets u)" "a' < length (sets u)" "a \<noteq> a'"
    show "set (branches (sets u ! a)) \<inter> set (branches (sets u ! a')) = {}"
    proof (cases "a < ?N \<and> a' < ?N")
      case True
      then show ?thesis using wp h(3) by (simp add: wf_parent_def old)
    next
      case False
      with h have "a = ?N \<or> a' = ?N" by (auto simp: len)
      then show ?thesis by (auto simp: new)
    qed
  qed
  moreover have lv: "live t a \<or> a = ?N" if "live u a" for a
    using that
  proof (induction rule: live.induct)
    case (live_stack a)
    then show ?case by (auto simp: stack intro: live.live_stack)
  next
    case (live_branch a b)
    show ?case
    proof (cases "a = ?N")
      case True
      with live_branch.hyps(2) show ?thesis by (simp add: new)
    next
      case False
      with live_branch.IH have la: "live t a" by simp
      then have "a < ?N" using wf wf_table_live_valid by blast
      with live_branch.hyps(2) have "b \<in> set (branches (sets t ! a))" by (simp add: old)
      with la have "live t b" by (rule live.live_branch)
      then show ?thesis by simp
    qed
  qed
  have "wf_own u"
    unfolding wf_own_def
  proof (intro allI impI)
    fix p q assume pq: "live u p" "live u q" "p \<noteq> q"
    have fresh: "cells u ?N \<subseteq> {c. ?M \<le> c}"
      using cr unfolding cells_def carried_def by (auto simp: cnew)
    have oldc: "cells u s = cells t s \<and> cells t s \<subseteq> {c. c < ?M}" if "live t s" for s
    proof -
      from that have v: "s < ?N" using wf wf_table_live_valid by blast
      then have "cells u s = cells t s" by (simp add: cells_def cold)
      moreover have "cells t s \<subseteq> {c. c < ?M}" using wf_table_cells_valid[OF wf v] by blast
      ultimately show ?thesis by simp
    qed
    from pq lv consider "live t p" "live t q" | "p = ?N" "live t q" | "live t p" "q = ?N"
      by blast
    then show "cells u p \<inter> cells u q = {}"
    proof cases
      case 1
      with wo pq(3) have "cells t p \<inter> cells t q = {}" by (simp add: wf_own_def)
      then show ?thesis using oldc 1 by simp
    next
      case 2
      then show ?thesis using fresh oldc[OF 2(2)] by fastforce
    next
      case 3
      then show ?thesis using fresh oldc[OF 3(1)] by fastforce
    qed
  qed
  ultimately show ?thesis by (simp add: wf_table_def u_def)
qed

lemma pop_wf:
  assumes wf: "wf_table t"
  shows "wf_table (t\<lparr>typeVariableSetStack := butlast (typeVariableSetStack t)\<rparr>)"
proof -
  let ?u = "t\<lparr>typeVariableSetStack := butlast (typeVariableSetStack t)\<rparr>"
  have sub: "set (typeVariableSetStack ?u) \<subseteq> set (typeVariableSetStack t)"
    by (auto dest: in_set_butlastD)
  have lv: "live t a" if "live ?u a" for a
    using that by (rule live_mono) (use sub in simp_all)
  have c: "cells ?u a = cells t a" for a by (simp add: cells_def cell_def)
  have "sorted_wrt (<) (butlast (typeVariableSetStack t))"
    using wf by (simp add: wf_table_def wf_stack_def butlast_conv_take sorted_wrt_take)
  then have "wf_stack ?u" using wf sub by (auto simp: wf_table_def wf_stack_def)
  moreover have "wf_vars ?u a = wf_vars t a" "wf_branches ?u a = wf_branches t a" for a
    by (simp_all add: wf_vars_def wf_branches_def cell_def)
  moreover have "wf_parent ?u = wf_parent t" by (simp add: wf_parent_def)
  moreover have "wf_own ?u"
    using wf lv unfolding wf_table_def wf_own_def c by blast
  ultimately show ?thesis using wf by (simp add: wf_table_def)
qed

lemma popScope_wf: "wf_table t \<Longrightarrow> wf_table (popScope t)"
  unfolding popScope_def by (rule pop_wf)

lemma popBranch_wf: "wf_table t \<Longrightarrow> wf_table (popBranch t)"
  unfolding popBranch_def by (rule pop_wf)

lemma pushBranch_cases:
  assumes "pushBranch t = Inr t'"
  obtains a where "top t = Some a"
    "t' = t\<lparr>sets := (sets t)[a := (sets t ! a)
                     \<lparr>branches := branches (sets t ! a) @ [length (sets t)]\<rparr>]
                   @ [\<lparr>kind = Branch, variables = [], branches = []\<rparr>],
            typeVariableSetStack := typeVariableSetStack t @ [length (sets t)]\<rparr>"
proof (cases "top t")
  case None
  then show thesis using assms by (simp add: pushBranch_def)
next
  case (Some a)
  then have "t' = t\<lparr>sets := (sets t)[a := (sets t ! a)
                     \<lparr>branches := branches (sets t ! a) @ [length (sets t)]\<rparr>]
                   @ [\<lparr>kind = Branch, variables = [], branches = []\<rparr>],
            typeVariableSetStack := typeVariableSetStack t @ [length (sets t)]\<rparr>"
    using assms by (simp add: pushBranch_def)
  with Some show thesis by (rule that)
qed

lemma pushBranch_wf:
  assumes wf: "wf_table t" and pb: "pushBranch t = Inr u"
  shows "wf_table u"
  using pb
proof (cases rule: pushBranch_cases)
  case (1 a)
  let ?N = "length (sets t)"
  have a: "a < ?N" using wf 1(1) top_valid by (simp add: wf_table_def)
  have stack: "typeVariableSetStack u = typeVariableSetStack t @ [?N]" by (simp add: 1(2))
  have len: "length (sets u) = Suc ?N" by (simp add: 1(2))
  have ob: "objs u = objs t" by (simp add: 1(2))
  have new: "sets u ! ?N = \<lparr>kind = Branch, variables = [], branches = []\<rparr>"
    by (simp add: 1(2) nth_append)
  have vars: "variables (sets u ! s) = variables (sets t ! s)" if "s < ?N" for s
    using that a by (cases "s = a") (simp_all add: 1(2) nth_append)
  have br: "branches (sets u ! s) = (if s = a then branches (sets t ! a) @ [?N]
                                     else branches (sets t ! s))" if "s < ?N" for s
    using that a by (cases "s = a") (simp_all add: 1(2) nth_append)
  have cold: "cell u s x = cell t s x" if "s < ?N" for s x
    using vars[OF that] by (simp add: cell_def)
  have wst: "wf_stack t" and wvb: "\<And>s. s < ?N \<Longrightarrow> wf_vars t s \<and> wf_branches t s"
    and wp: "wf_parent t" and wo: "wf_own t"
    using wf by (simp_all add: wf_table_def)
  have brN: "?N \<notin> set (branches (sets t ! s))" if "s < ?N" for s
    using wvb[OF that] unfolding wf_branches_def by blast
  have "wf_stack u"
    using wst by (auto simp: wf_stack_def stack len sorted_wrt_less_snoc less_Suc_eq)
  moreover have "wf_vars u s \<and> wf_branches u s" if "s < length (sets u)" for s
  proof (cases "s < ?N")
    case True
    from wvb[OF True] have wv: "wf_vars t s" and wb: "wf_branches t s" by simp_all
    have "wf_vars u s" using wv by (simp add: wf_vars_def vars[OF True] cold[OF True] ob)
    moreover have "wf_branches u s"
    proof (cases "s = a")
      case True
      have "distinct (branches (sets t ! a) @ [?N])"
        using wb brN[OF a] by (simp add: wf_branches_def True)
      moreover have "\<forall>b \<in> set (branches (sets t ! a) @ [?N]). a < b \<and> b < Suc ?N"
        using wb a by (auto simp: wf_branches_def True)
      ultimately show ?thesis by (simp add: wf_branches_def True br[OF a] len)
    next
      case False
      then show ?thesis using wb \<open>s < ?N\<close> by (auto simp: wf_branches_def br len)
    qed
    ultimately show ?thesis by simp
  next
    case False
    with that have s: "s = ?N" by (simp add: len)
    show ?thesis by (simp add: wf_branches_def wf_vars_def s new cell_def)
  qed
  moreover have "wf_parent u"
    unfolding wf_parent_def
  proof (intro allI impI)
    fix p q assume h: "p < length (sets u)" "q < length (sets u)" "p \<noteq> q"
    show "set (branches (sets u ! p)) \<inter> set (branches (sets u ! q)) = {}"
    proof (cases "p < ?N \<and> q < ?N")
      case True
      then have d: "set (branches (sets t ! p)) \<inter> set (branches (sets t ! q)) = {}"
        using wp h(3) by (simp add: wf_parent_def)
      from True have "?N \<notin> set (branches (sets t ! p))" "?N \<notin> set (branches (sets t ! q))"
        using brN by simp_all
      with d True h(3) show ?thesis by (auto simp: br)
    next
      case False
      with h have "p = ?N \<or> q = ?N" by (auto simp: len)
      then show ?thesis by (auto simp: new)
    qed
  qed
  moreover have lv: "live t x \<or> x = ?N" if "live u x" for x
    using that
  proof (induction rule: live.induct)
    case (live_stack x)
    then show ?case by (auto simp: stack intro: live.live_stack)
  next
    case (live_branch p b)
    show ?case
    proof (cases "p = ?N")
      case True
      with live_branch.hyps(2) show ?thesis by (simp add: new)
    next
      case False
      with live_branch.IH have lp: "live t p" by simp
      then have pv: "p < ?N" using wf wf_table_live_valid by blast
      from live_branch.hyps(2) have "b \<in> set (branches (sets t ! p)) \<or> b = ?N"
        by (auto simp: br[OF pv] split: if_splits)
      then show ?thesis using lp live.live_branch by blast
    qed
  qed
  have "wf_own u"
    unfolding wf_own_def
  proof (intro allI impI)
    fix p q assume pq: "live u p" "live u q" "p \<noteq> q"
    have fresh: "cells u ?N = {}" by (simp add: cells_def cell_def new)
    have oldc: "cells u s = cells t s" if "live t s" for s
    proof -
      from that have v: "s < ?N" using wf wf_table_live_valid by blast
      then show ?thesis by (simp add: cells_def cold)
    qed
    from pq lv consider "live t p" "live t q" | "p = ?N" | "q = ?N"
      by blast
    then show "cells u p \<inter> cells u q = {}"
    proof cases
      case 1
      with wo pq(3) have "cells t p \<inter> cells t q = {}" by (simp add: wf_own_def)
      then show ?thesis using oldc 1 by simp
    next
      case 2
      then show ?thesis using fresh by simp
    next
      case 3
      then show ?thesis using fresh by simp
    qed
  qed
  ultimately show ?thesis by (simp add: wf_table_def)
qed

lemma frame_refl: "frame a u u"
  by (simp add: frame_def)

lemma frame_trans: "frame a u u1 \<Longrightarrow> frame a u1 u2 \<Longrightarrow> frame a u u2"
  by (simp add: frame_def)

lemma frame_cell: "frame a u u' \<Longrightarrow> r \<noteq> a \<Longrightarrow> cell u' r x = cell u r x"
  by (simp add: frame_def cell_def)

lemma frame_cells: "frame a u u' \<Longrightarrow> r \<noteq> a \<Longrightarrow> cells u' r = cells u r"
  by (simp add: cells_def frame_cell)

lemma frame_wf_vars:
  assumes "frame a u u'" "r \<noteq> a" "wf_vars u r"
  shows "wf_vars u' r"
proof -
  have s: "sets u' ! r = sets u ! r" and l: "length (objs u') = length (objs u)"
    and n: "\<And>c. tv_name (objs u' ! c) = tv_name (objs u ! c)"
    using assms(1,2) by (simp_all add: frame_def)
  show ?thesis using assms(3) by (simp add: wf_vars_def cell_def s l n)
qed

lemma binding_Some:
  "binding u a x = Some ty \<longleftrightarrow> (\<exists>c. cell u a x = Some c \<and> tv_type (objs u ! c) = ty)"
  by (auto simp: binding_def cell_def)

lemma binding_None: "binding u a x = None \<longleftrightarrow> cell u a x = None"
  by (simp add: binding_def cell_def)

lemma binding_cell: "cell u a x = Some c \<Longrightarrow> binding u a x = Some (tv_type (objs u ! c))"
  by (simp add: binding_def cell_def)

lemma mergeVar_spec:
  assumes ab: "a \<noteq> b" and a: "a < length (sets u)"
    and wa: "wf_vars u a" and wb: "wf_vars u b" and k: "cell u b k \<noteq> None"
  shows "\<exists>u'. mergeVar mrg a b k u = Inr u' \<and> frame a u u' \<and> wf_vars u' a \<and>
      (\<forall>x. binding u' a x =
         (if x = k then join2 mrg (binding u a k) (binding u b k) else binding u a x)) \<and>
      (\<forall>x. x \<noteq> k \<longrightarrow> binding u' b x = binding u b x) \<and>
      cells u' a \<subseteq> cells u a \<union> cells u b \<and>
      (\<forall>c. objs u' ! c \<noteq> objs u ! c \<longrightarrow> c \<in> cells u a)"
proof -
  from k obtain c where c: "cell u b k = Some c" by blast
  then have mc: "map_of (variables (sets u ! b)) k = Some c" by (simp add: cell_def)
  from wb c have cv: "c < length (objs u)" and cn: "tv_name (objs u ! c) = k"
    unfolding wf_vars_def by blast+
  have bk: "binding u b k = Some (tv_type (objs u ! c))" using c by (rule binding_cell)
  show ?thesis
  proof (cases "cell u a k")
    case None
    then have ma: "map_of (variables (sets u ! a)) k = None" by (simp add: cell_def)
    define u' where "u' = u\<lparr>sets := (sets u)[a := (sets u ! a)
                      \<lparr>variables := AList.update k c (variables (sets u ! a))\<rparr>]\<rparr>"
    have run: "mergeVar mrg a b k u = Inr u'"
      by (simp add: mergeVar_def mc cn ma u'_def)
    have ob: "objs u' = objs u" by (simp add: u'_def)
    have fr: "frame a u u'" using a by (simp add: frame_def u'_def)
    have ca: "cell u' a x = (if x = k then Some c else cell u a x)" for x
      using a by (simp add: cell_def u'_def update_conv')
    have cb: "cell u' b x = cell u b x" for x
      using fr ab by (simp add: frame_cell)
    have "distinct (map fst (variables (sets u' ! a)))"
      using wa a by (simp add: wf_vars_def u'_def distinct_update)
    moreover have "d < length (objs u') \<and> tv_name (objs u' ! d) = x" if "cell u' a x = Some d" for x d
    proof (cases "x = k")
      case True
      with that have "d = c" by (simp add: ca)
      then show ?thesis using cv cn True by (simp add: ob)
    next
      case False
      with that have "cell u a x = Some d" by (simp add: ca)
      with wa show ?thesis unfolding wf_vars_def ob by blast
    qed
    ultimately have wa': "wf_vars u' a" unfolding wf_vars_def by blast
    have ba: "binding u' a x =
         (if x = k then join2 mrg (binding u a k) (binding u b k) else binding u a x)" for x
    proof (cases "x = k")
      case True
      have "binding u a k = None" using None by (simp add: binding_None)
      moreover have "binding u' a k = Some (tv_type (objs u ! c))"
        using binding_cell[of u' a k c] by (simp add: ca ob)
      ultimately show ?thesis using True bk by (simp add: join2_def)
    next
      case False
      then show ?thesis by (simp add: binding_def cell_def[symmetric] ca ob)
    qed
    have bb: "binding u' b x = binding u b x" for x
      by (simp add: binding_def cell_def[symmetric] cb ob)
    have sub: "cells u' a \<subseteq> cells u a \<union> cells u b"
    proof
      fix d assume "d \<in> cells u' a"
      then obtain x where "cell u' a x = Some d" by (auto simp: cells_def)
      then have "d = c \<or> cell u a x = Some d" by (cases "x = k") (simp_all add: ca)
      then show "d \<in> cells u a \<union> cells u b" using c unfolding cells_def by blast
    qed
    show ?thesis using run fr wa' ba bb sub ob by simp
  next
    case (Some c')
    then have ma: "map_of (variables (sets u ! a)) k = Some c'" by (simp add: cell_def)
    from wa Some have c'v: "c' < length (objs u)" and c'n: "tv_name (objs u ! c') = k"
      unfolding wf_vars_def by blast+
    define u' where "u' = u\<lparr>objs := (objs u)[c' := (objs u ! c')
                      \<lparr>tv_type := mrg (tv_type (objs u ! c')) (tv_type (objs u ! c))\<rparr>]\<rparr>"
    have run: "mergeVar mrg a b k u = Inr u'"
      by (simp add: mergeVar_def mc cn ma u'_def)
    have st: "sets u' = sets u" by (simp add: u'_def)
    have nm: "tv_name (objs u' ! d) = tv_name (objs u ! d)" for d
      using c'v by (cases "d = c'") (simp_all add: u'_def)
    have oth: "objs u' ! d = objs u ! d" if "d \<noteq> c'" for d
      using that by (simp add: u'_def)
    have upd: "tv_type (objs u' ! c') = mrg (tv_type (objs u ! c')) (tv_type (objs u ! c))"
      using c'v by (simp add: u'_def)
    have fr: "frame a u u'" using nm by (simp add: frame_def st) (simp add: u'_def)
    have ce: "cell u' s x = cell u s x" for s x by (simp add: cell_def st)
    have olen: "length (objs u') = length (objs u)" by (simp add: u'_def)
    have wa': "wf_vars u' a" using wa by (simp add: wf_vars_def cell_def st nm olen)
    have ba: "binding u' a x =
         (if x = k then join2 mrg (binding u a k) (binding u b k) else binding u a x)" for x
    proof (cases "x = k")
      case True
      have "binding u a k = Some (tv_type (objs u ! c'))" using Some by (rule binding_cell)
      moreover have "binding u' a k = Some (tv_type (objs u' ! c'))"
        using binding_cell[of u' a k c'] Some by (simp add: ce)
      ultimately show ?thesis using True bk upd by (simp add: join2_def)
    next
      case False
      show ?thesis
      proof (cases "cell u a x")
        case None
        then show ?thesis using False by (simp add: binding_def cell_def[symmetric] ce)
      next
        case (Some d)
        with wa have "tv_name (objs u ! d) = x" unfolding wf_vars_def by blast
        with False c'n have "d \<noteq> c'" by auto
        then show ?thesis using False Some by (simp add: binding_def cell_def[symmetric] ce oth)
      qed
    qed
    have bb: "binding u' b x = binding u b x" if "x \<noteq> k" for x
    proof (cases "cell u b x")
      case None
      then show ?thesis by (simp add: binding_def cell_def[symmetric] ce)
    next
      case (Some d)
      with wb have "tv_name (objs u ! d) = x" unfolding wf_vars_def by blast
      with that c'n have "d \<noteq> c'" by auto
      then show ?thesis using Some by (simp add: binding_def cell_def[symmetric] ce oth)
    qed
    have sub: "cells u' a \<subseteq> cells u a \<union> cells u b" by (simp add: cells_def ce)
    have mut: "d \<in> cells u a" if "objs u' ! d \<noteq> objs u ! d" for d
    proof -
      from that oth have "d = c'" by blast
      then show ?thesis using Some unfolding cells_def by blast
    qed
    show ?thesis using run fr wa' ba bb sub mut by blast
  qed
qed

lemma mergeLoop_spec:
  assumes "a \<noteq> b" "a < length (sets u)" "wf_vars u a" "wf_vars u b" "distinct ks"
    "\<forall>k \<in> set ks. cell u b k \<noteq> None"
  shows "\<exists>u'. mergeLoop mrg a b ks u = Inr u' \<and> frame a u u' \<and> wf_vars u' a \<and>
      (\<forall>x. binding u' a x =
         (if x \<in> set ks then join2 mrg (binding u a x) (binding u b x) else binding u a x)) \<and>
      (\<forall>x. x \<notin> set ks \<longrightarrow> binding u' b x = binding u b x) \<and>
      cells u' a \<subseteq> cells u a \<union> cells u b \<and>
      (\<forall>c. objs u' ! c \<noteq> objs u ! c \<longrightarrow> c \<in> cells u a \<union> cells u b)"
  using assms(2-6)
proof (induction ks arbitrary: u)
  case Nil
  then show ?case by (simp add: frame_refl)
next
  case (Cons k ks)
  have ab: "a \<noteq> b" by (rule assms(1))
  from Cons.prems(5) have kb: "cell u b k \<noteq> None" by simp
  from mergeVar_spec[OF ab Cons.prems(1,2,3) kb, of mrg]
  obtain u1 where run1: "mergeVar mrg a b k u = Inr u1" and fr1: "frame a u u1"
    and wa1: "wf_vars u1 a"
    and ba1: "\<And>x. binding u1 a x =
         (if x = k then join2 mrg (binding u a k) (binding u b k) else binding u a x)"
    and bb1: "\<And>x. x \<noteq> k \<Longrightarrow> binding u1 b x = binding u b x"
    and sub1: "cells u1 a \<subseteq> cells u a \<union> cells u b"
    and mut1: "\<And>c. objs u1 ! c \<noteq> objs u ! c \<Longrightarrow> c \<in> cells u a"
    by blast
  have a1: "a < length (sets u1)" using fr1 Cons.prems(1) by (simp add: frame_def)
  have wb1: "wf_vars u1 b" using fr1 ab[symmetric] Cons.prems(3) by (rule frame_wf_vars)
  have cb1: "cell u1 b x = cell u b x" for x using fr1 ab[symmetric] by (rule frame_cell)
  have csb1: "cells u1 b = cells u b" using fr1 ab[symmetric] by (rule frame_cells)
  from Cons.prems(4) have dks: "distinct ks" and kks: "k \<notin> set ks" by simp_all
  from Cons.prems(5) have kbs: "\<forall>k \<in> set ks. cell u1 b k \<noteq> None" by (simp add: cb1)
  from Cons.IH[OF a1 wa1 wb1 dks kbs]
  obtain u' where run: "mergeLoop mrg a b ks u1 = Inr u'" and fr: "frame a u1 u'"
    and wa': "wf_vars u' a"
    and ba: "\<And>x. binding u' a x =
         (if x \<in> set ks then join2 mrg (binding u1 a x) (binding u1 b x) else binding u1 a x)"
    and bb: "\<And>x. x \<notin> set ks \<Longrightarrow> binding u' b x = binding u1 b x"
    and sub: "cells u' a \<subseteq> cells u1 a \<union> cells u1 b"
    and mut: "\<And>c. objs u' ! c \<noteq> objs u1 ! c \<Longrightarrow> c \<in> cells u1 a \<union> cells u1 b"
    by blast
  have r: "mergeLoop mrg a b (k # ks) u = Inr u'" by (simp add: run1 run)
  have f: "frame a u u'" using fr1 fr by (rule frame_trans)
  have A: "binding u' a x =
         (if x \<in> set (k # ks) then join2 mrg (binding u a x) (binding u b x) else binding u a x)"
    for x
  proof (cases "x = k")
    case True
    then show ?thesis using kks ba[of k] ba1[of k] by simp
  next
    case False
    then show ?thesis using ba[of x] ba1[of x] bb1[of x] by simp
  qed
  have B: "binding u' b x = binding u b x" if "x \<notin> set (k # ks)" for x
    using that bb[of x] bb1[of x] by simp
  have C: "cells u' a \<subseteq> cells u a \<union> cells u b" using sub sub1 csb1 by blast
  have D: "c \<in> cells u a \<union> cells u b" if "objs u' ! c \<noteq> objs u ! c" for c
  proof (cases "objs u1 ! c = objs u ! c")
    case True
    with that have "objs u' ! c \<noteq> objs u1 ! c" by simp
    from mut[OF this] show ?thesis using sub1 csb1 by blast
  next
    case False
    from mut1[OF this] show ?thesis by simp
  qed
  show ?case using r f wa' A B C D by blast
qed

lemma mergeSets_spec:
  assumes "a \<noteq> b" "a < length (sets u)" "wf_vars u a" "wf_vars u b"
  shows "\<exists>u'. mergeSets mrg a b u = Inr u' \<and> frame a u u' \<and> wf_vars u' a \<and>
      (\<forall>x. binding u' a x = join2 mrg (binding u a x) (binding u b x)) \<and>
      cells u' a \<subseteq> cells u a \<union> cells u b \<and>
      (\<forall>c. objs u' ! c \<noteq> objs u ! c \<longrightarrow> c \<in> cells u a \<union> cells u b)"
proof -
  let ?ks = "map fst (variables (sets u ! b))"
  have d: "distinct ?ks" using assms(4) by (simp add: wf_vars_def)
  have keys: "x \<in> set ?ks \<longleftrightarrow> cell u b x \<noteq> None" for x
    by (simp add: cell_def map_of_eq_None_iff)
  then have k: "\<forall>k \<in> set ?ks. cell u b k \<noteq> None" by blast
  from mergeLoop_spec[OF assms d k, of mrg]
  obtain u' where run: "mergeLoop mrg a b ?ks u = Inr u'" and fr: "frame a u u'"
    and wa': "wf_vars u' a"
    and ba: "\<And>x. binding u' a x =
         (if x \<in> set ?ks then join2 mrg (binding u a x) (binding u b x) else binding u a x)"
    and sub: "cells u' a \<subseteq> cells u a \<union> cells u b"
    and mut: "\<forall>c. objs u' ! c \<noteq> objs u ! c \<longrightarrow> c \<in> cells u a \<union> cells u b"
    by blast
  have "binding u' a x = join2 mrg (binding u a x) (binding u b x)" for x
  proof (cases "x \<in> set ?ks")
    case True
    then show ?thesis using ba[of x] by simp
  next
    case False
    then have "binding u b x = None" using keys[of x] by (simp add: binding_None)
    then show ?thesis using ba[of x] False by (simp add: join2_def)
  qed
  then show ?thesis using run fr wa' sub mut by (simp add: mergeSets_def)
qed

lemma binding_frame:
  assumes "frame a u u'" "r \<noteq> a" "\<forall>c \<in> cells u r. objs u' ! c = objs u ! c"
  shows "binding u' r x = binding u r x"
proof (cases "cell u r x")
  case None
  then show ?thesis using frame_cell[OF assms(1,2)] by (simp add: binding_None[symmetric] binding_def cell_def)
next
  case (Some c)
  then have "c \<in> cells u r" unfolding cells_def by blast
  with assms(3) have "objs u' ! c = objs u ! c" by blast
  moreover have "cell u' r x = Some c" using Some frame_cell[OF assms(1,2)] by simp
  ultimately show ?thesis using Some by (simp add: binding_cell)
qed

lemma pruneLoop_spec:
  assumes "a < length (sets u)" "a \<notin> set rs" "distinct rs" "wf_vars u a"
    "\<forall>r \<in> set rs. wf_vars u r"
    "\<forall>r \<in> set rs. cells u a \<inter> cells u r = {}"
    "\<forall>r \<in> set rs. \<forall>r' \<in> set rs. r \<noteq> r' \<longrightarrow> cells u r \<inter> cells u r' = {}"
  shows "\<exists>u'. pruneLoop mrg a rs u = Inr u' \<and> frame a u u' \<and> wf_vars u' a \<and>
      (\<forall>x. binding u' a x = foldl (join2 mrg) (binding u a x) (map (\<lambda>r. binding u r x) rs)) \<and>
      cells u' a \<subseteq> cells u a \<union> (\<Union>r \<in> set rs. cells u r) \<and>
      (\<forall>c. objs u' ! c \<noteq> objs u ! c \<longrightarrow> c \<in> cells u a \<union> (\<Union>r \<in> set rs. cells u r))"
  using assms
proof (induction rs arbitrary: u)
  case Nil
  then show ?case by (simp add: frame_refl)
next
  case (Cons b rs)
  from Cons.prems(2) have ab: "a \<noteq> b" and ars: "a \<notin> set rs" by auto
  from Cons.prems(3) have brs: "b \<notin> set rs" and drs: "distinct rs" by simp_all
  from Cons.prems(5) have wb: "wf_vars u b" by simp
  from mergeSets_spec[OF ab Cons.prems(1,4) wb, of mrg]
  obtain u1 where run1: "mergeSets mrg a b u = Inr u1" and fr1: "frame a u u1"
    and wa1: "wf_vars u1 a"
    and ba1: "\<And>x. binding u1 a x = join2 mrg (binding u a x) (binding u b x)"
    and sub1: "cells u1 a \<subseteq> cells u a \<union> cells u b"
    and mut1: "\<And>c. objs u1 ! c \<noteq> objs u ! c \<Longrightarrow> c \<in> cells u a \<union> cells u b"
    by blast
  have a1: "a < length (sets u1)" using fr1 Cons.prems(1) by (simp add: frame_def)
  have rne: "r \<noteq> a" "r \<noteq> b" if "r \<in> set rs" for r using that ars brs by auto
  have cs1: "cells u1 r = cells u r" if "r \<in> set rs" for r
    using fr1 rne(1)[OF that] by (rule frame_cells)
  have w1: "\<forall>r \<in> set rs. wf_vars u1 r"
    using frame_wf_vars[OF fr1] rne(1) Cons.prems(5) by simp
  have dis_a: "cells u a \<inter> cells u r = {}" and dis_b: "cells u b \<inter> cells u r = {}"
    if "r \<in> set rs" for r
    using that Cons.prems(6,7) rne(2)[OF that] by auto
  have d1: "\<forall>r \<in> set rs. cells u1 a \<inter> cells u1 r = {}"
    using sub1 dis_a dis_b cs1 by blast
  have d2: "\<forall>r \<in> set rs. \<forall>r' \<in> set rs. r \<noteq> r' \<longrightarrow> cells u1 r \<inter> cells u1 r' = {}"
    using Cons.prems(7) cs1 by simp
  have b1: "binding u1 r x = binding u r x" if "r \<in> set rs" for r x
  proof (rule binding_frame[OF fr1 rne(1)[OF that]])
    show "\<forall>c \<in> cells u r. objs u1 ! c = objs u ! c"
      using mut1 dis_a[OF that] dis_b[OF that] by blast
  qed
  from Cons.IH[OF a1 ars drs wa1 w1 d1 d2]
  obtain u' where run: "pruneLoop mrg a rs u1 = Inr u'" and fr: "frame a u1 u'"
    and wa': "wf_vars u' a"
    and ba: "\<And>x. binding u' a x =
        foldl (join2 mrg) (binding u1 a x) (map (\<lambda>r. binding u1 r x) rs)"
    and sub: "cells u' a \<subseteq> cells u1 a \<union> (\<Union>r \<in> set rs. cells u1 r)"
    and mut: "\<And>c. objs u' ! c \<noteq> objs u1 ! c \<Longrightarrow>
        c \<in> cells u1 a \<union> (\<Union>r \<in> set rs. cells u1 r)"
    by blast
  have r: "pruneLoop mrg a (b # rs) u = Inr u'" by (simp add: run1 run)
  have f: "frame a u u'" using fr1 fr by (rule frame_trans)
  have m: "map (\<lambda>r. binding u1 r x) rs = map (\<lambda>r. binding u r x) rs" for x
    using b1 by simp
  have A: "binding u' a x =
      foldl (join2 mrg) (binding u a x) (map (\<lambda>r. binding u r x) (b # rs))" for x
    by (simp add: ba ba1 m)
  have C: "cells u' a \<subseteq> cells u a \<union> (\<Union>r \<in> set (b # rs). cells u r)"
    using sub sub1 cs1 by auto
  have D: "c \<in> cells u a \<union> (\<Union>r \<in> set (b # rs). cells u r)"
    if "objs u' ! c \<noteq> objs u ! c" for c
  proof (cases "objs u1 ! c = objs u ! c")
    case True
    with that have "objs u' ! c \<noteq> objs u1 ! c" by simp
    from mut[OF this] show ?thesis using sub1 cs1 by auto
  next
    case False
    from mut1[OF this] show ?thesis by auto
  qed
  show ?case using r f wa' A C D by blast
qed

lemma pruneBranches_effect:
  assumes wf: "wf_table t" and top: "top t = Some a"
  shows "\<exists>t'. pruneBranches mrg t = Inr t' \<and>
      frame a (t\<lparr>sets := (sets t)[a := (sets t ! a)\<lparr>branches := []\<rparr>]\<rparr>) t' \<and>
      wf_vars t' a \<and>
      (\<forall>x. binding t' a x =
         foldl (join2 mrg) (binding t a x) (map (\<lambda>b. binding t b x) (branches (sets t ! a)))) \<and>
      cells t' a \<subseteq> cells t a \<union> (\<Union>b \<in> set (branches (sets t ! a)). cells t b) \<and>
      (\<forall>c. objs t' ! c \<noteq> objs t ! c \<longrightarrow>
         c \<in> cells t a \<union> (\<Union>b \<in> set (branches (sets t ! a)). cells t b))"
proof -
  let ?bs = "branches (sets t ! a)"
  define u where "u = t\<lparr>sets := (sets t)[a := (sets t ! a)\<lparr>branches := []\<rparr>]\<rparr>"
  have a: "a < length (sets t)" using wf top top_valid by (simp add: wf_table_def)
  have wvb: "\<And>s. s < length (sets t) \<Longrightarrow> wf_vars t s \<and> wf_branches t s"
    and wo: "wf_own t"
    using wf by (simp_all add: wf_table_def)
  have wba: "wf_branches t a" using wvb a by blast
  have bv: "a < b \<and> b < length (sets t)" if "b \<in> set ?bs" for b
    using wba that unfolding wf_branches_def by blast
  have vars: "variables (sets u ! s) = variables (sets t ! s)" for s
    using a by (cases "s = a") (simp_all add: u_def)
  have ce: "cell u s x = cell t s x" for s x by (simp add: cell_def vars)
  have cs: "cells u s = cells t s" for s by (simp add: cells_def ce)
  have ob: "objs u = objs t" by (simp add: u_def)
  have bi: "binding u s x = binding t s x" for s x by (simp add: binding_def vars ob)
  have wv: "wf_vars u s = wf_vars t s" for s by (simp add: wf_vars_def vars ce ob)
  have la: "live t a" using top by (auto intro: live.live_stack top_in_stack)
  have lb: "live t b" if "b \<in> set ?bs" for b using la that by (rule live.live_branch)
  have p1: "a < length (sets u)" using a by (simp add: u_def)
  have p2: "a \<notin> set ?bs" using bv by blast
  have p3: "distinct ?bs" using wba by (simp add: wf_branches_def)
  have p4: "wf_vars u a" using wvb a by (simp add: wv)
  have p5: "\<forall>r \<in> set ?bs. wf_vars u r" using wvb bv by (simp add: wv)
  have p6: "\<forall>r \<in> set ?bs. cells u a \<inter> cells u r = {}"
    using wo la lb p2 unfolding wf_own_def cs by blast
  have p7: "\<forall>r \<in> set ?bs. \<forall>r' \<in> set ?bs. r \<noteq> r' \<longrightarrow> cells u r \<inter> cells u r' = {}"
    using wo lb unfolding wf_own_def cs by blast
  from pruneLoop_spec[OF p1 p2 p3 p4 p5 p6 p7, of mrg]
  obtain t' where run: "pruneLoop mrg a ?bs u = Inr t'" and fr: "frame a u t'"
    and wa': "wf_vars t' a"
    and ba: "\<And>x. binding t' a x =
        foldl (join2 mrg) (binding u a x) (map (\<lambda>r. binding u r x) ?bs)"
    and sub: "cells t' a \<subseteq> cells u a \<union> (\<Union>r \<in> set ?bs. cells u r)"
    and mut: "\<forall>c. objs t' ! c \<noteq> objs u ! c \<longrightarrow> c \<in> cells u a \<union> (\<Union>r \<in> set ?bs. cells u r)"
    by blast
  have r: "pruneBranches mrg t = Inr t'" using run by (simp add: pruneBranches_def top u_def)
  have fr': "frame a (t\<lparr>sets := (sets t)[a := (sets t ! a)\<lparr>branches := []\<rparr>]\<rparr>) t'"
    using fr by (simp add: u_def)
  have ba': "\<forall>x. binding t' a x =
         foldl (join2 mrg) (binding t a x) (map (\<lambda>b. binding t b x) ?bs)"
    using ba by (simp add: bi)
  have sub': "cells t' a \<subseteq> cells t a \<union> (\<Union>b \<in> set ?bs. cells t b)"
    using sub by (simp add: cs)
  have mut': "\<forall>c. objs t' ! c \<noteq> objs t ! c \<longrightarrow>
         c \<in> cells t a \<union> (\<Union>b \<in> set ?bs. cells t b)"
    using mut by (simp add: cs ob)
  show ?thesis
    by (rule exI[of _ t']) (intro conjI r fr' wa' ba' sub' mut')
qed

lemma sorted_wrt_less_le_last:
  "sorted_wrt (<) xs \<Longrightarrow> (x::nat) \<in> set xs \<Longrightarrow> x \<le> last xs"
  by (induction xs) (auto simp: less_imp_le)

lemma pruneBranches_wf:
  assumes wf: "wf_table t" and pr: "pruneBranches mrg t = Inr t'"
  shows "wf_table t'"
proof -
  from pr obtain a where top: "top t = Some a"
    by (cases "top t") (simp_all add: pruneBranches_def)
  let ?bs = "branches (sets t ! a)"
  let ?u = "t\<lparr>sets := (sets t)[a := (sets t ! a)\<lparr>branches := []\<rparr>]\<rparr>"
  from pruneBranches_effect[OF wf top, of mrg] pr
  have fr: "frame a ?u t'" and wa': "wf_vars t' a"
    and sub: "cells t' a \<subseteq> cells t a \<union> (\<Union>b \<in> set ?bs. cells t b)"
    by simp_all
  have a: "a < length (sets t)" using wf top top_valid by (simp add: wf_table_def)
  have wst: "wf_stack t" and wvb: "\<And>s. s < length (sets t) \<Longrightarrow> wf_vars t s \<and> wf_branches t s"
    and wp: "wf_parent t" and wo: "wf_own t"
    using wf by (simp_all add: wf_table_def)
  have stack: "typeVariableSetStack t' = typeVariableSetStack t"
    and len: "length (sets t') = length (sets t)"
    and olen: "length (objs t') = length (objs t)"
    and nm: "\<And>c. tv_name (objs t' ! c) = tv_name (objs t ! c)"
    using fr by (simp_all add: frame_def)
  have oth: "sets t' ! s = sets t ! s" if "s \<noteq> a" for s
    using fr that by (simp add: frame_def)
  have bra: "branches (sets t' ! a) = []" using fr a by (simp add: frame_def)
  have brsub: "set (branches (sets t' ! s)) \<subseteq> set (branches (sets t ! s))" for s
    by (cases "s = a") (simp_all add: bra oth)
  have co: "cells t' s = cells t s" if "s \<noteq> a" for s
    using that by (simp add: cells_def cell_def oth)
  have bv: "a < b \<and> b < length (sets t)" if "b \<in> set ?bs" for b
    using wvb[OF a] that unfolding wf_branches_def by blast
  have la: "live t a" using top by (auto intro: live.live_stack top_in_stack)
  have lb: "live t b" if "b \<in> set ?bs" for b using la that by (rule live.live_branch)
  have "wf_stack t'" using wst by (simp add: wf_stack_def stack len)
  moreover have "wf_vars t' s \<and> wf_branches t' s" if "s < length (sets t')" for s
  proof (cases "s = a")
    case True
    then show ?thesis using wa' by (simp add: wf_branches_def bra)
  next
    case False
    from that wvb have w: "wf_vars t s" "wf_branches t s" by (simp_all add: len)
    have "wf_vars t' s" using w(1) by (simp add: wf_vars_def cell_def oth[OF False] olen nm)
    moreover have "wf_branches t' s" using w(2) by (simp add: wf_branches_def oth[OF False] len)
    ultimately show ?thesis by simp
  qed
  moreover have "wf_parent t'"
    unfolding wf_parent_def
  proof (intro allI impI)
    fix p q assume h: "p < length (sets t')" "q < length (sets t')" "p \<noteq> q"
    then have "set (branches (sets t ! p)) \<inter> set (branches (sets t ! q)) = {}"
      using wp by (simp add: wf_parent_def len)
    then show "set (branches (sets t' ! p)) \<inter> set (branches (sets t' ! q)) = {}"
      using brsub by blast
  qed
  moreover have lv: "live t x \<and> x \<notin> set ?bs" if "live t' x" for x
    using that
  proof (induction rule: live.induct)
    case (live_stack x)
    then have xs: "x \<in> set (typeVariableSetStack t)" by (simp add: stack)
    then have "x \<le> a"
      using wst top sorted_wrt_less_le_last by (auto simp: wf_stack_def top_Some)
    have "x \<notin> set ?bs"
    proof
      assume "x \<in> set ?bs"
      from bv[OF this] \<open>x \<le> a\<close> show False by simp
    qed
    then show ?case using xs live.live_stack by blast
  next
    case (live_branch p y)
    then have lp: "live t p" by simp
    show ?case
    proof (cases "p = a")
      case True
      with live_branch.hyps(2) show ?thesis by (simp add: bra)
    next
      case False
      with live_branch.hyps(2) have y: "y \<in> set (branches (sets t ! p))" by (simp add: oth)
      with lp have "live t y" by (rule live.live_branch)
      moreover have "y \<notin> set ?bs"
      proof
        assume "y \<in> set ?bs"
        moreover have "p < length (sets t)" using wf lp wf_table_live_valid by blast
        ultimately show False using wp y a False unfolding wf_parent_def by blast
      qed
      ultimately show ?thesis by simp
    qed
  qed
  have "wf_own t'"
    unfolding wf_own_def
  proof (intro allI impI)
    fix p q assume pq: "live t' p" "live t' q" "p \<noteq> q"
    have key: "cells t' a \<inter> cells t' r = {}" if "live t' r" "r \<noteq> a" for r
    proof -
      from lv[OF that(1)] have lr: "live t r" and rb: "r \<notin> set ?bs" by simp_all
      have "cells t a \<inter> cells t r = {}" using wo la lr that(2) unfolding wf_own_def by blast
      moreover have "cells t b \<inter> cells t r = {}" if "b \<in> set ?bs" for b
        using wo lb[OF that] lr rb that unfolding wf_own_def by blast
      ultimately show ?thesis using sub co[OF that(2)] by blast
    qed
    show "cells t' p \<inter> cells t' q = {}"
    proof (cases "p = a \<or> q = a")
      case True
      then show ?thesis using key pq by blast
    next
      case False
      then have "cells t' p = cells t p" "cells t' q = cells t q" using co by simp_all
      then show ?thesis using wo lv pq unfolding wf_own_def by simp
    qed
  qed
  ultimately show ?thesis by (simp add: wf_table_def)
qed

lemma reachable_wf: "reachable mrg t \<Longrightarrow> wf_table t"
proof (induction rule: reachable.induct)
  case r_create
  show ?case by (rule wf_create)
next
  case (r_setType t v ty t')
  then show ?case using setType_wf by blast
next
  case (r_pushScope t carry)
  then show ?case by (simp add: pushScope_wf)
next
  case (r_popScope t)
  then show ?case by (simp add: popScope_wf)
next
  case (r_pushBranch t t')
  then show ?case using pushBranch_wf by blast
next
  case (r_popBranch t)
  then show ?case by (simp add: popBranch_wf)
next
  case (r_pruneBranches t t')
  then show ?case using pruneBranches_wf by blast
qed

lemma getTypeLoop_visible: "getTypeLoop t x as = firstBinding t x (visible t as)"
proof (induction as)
  case Nil
  show ?case by (simp add: firstBinding_def)
next
  case (Cons a as)
  show ?case
  proof (cases "map_of (variables (sets t ! a)) x")
    case None
    then have b: "binding t a x = None" by (simp add: binding_def)
    show ?thesis using None b Cons.IH by (simp add: firstBinding_def)
  next
    case (Some c)
    then have b: "binding t a x = Some (tv_type (objs t ! c))" by (simp add: binding_def)
    show ?thesis using Some b by (simp add: firstBinding_def typeIn_def)
  qed
qed

lemma getType_visible:
  "getType t x None = firstBinding t x (visible t (rev (typeVariableSetStack t)))"
  by (simp add: getTypeLoop_visible)

lemma visible_scope:
  assumes "kind (sets t ! s) = Scope" "\<forall>a \<in> set inner. kind (sets t ! a) \<noteq> Scope"
  shows "visible t (rev (outer @ s # inner)) = rev inner @ [s]"
proof -
  have "visible t (xs @ s # ys) = xs @ [s]" if "\<forall>a \<in> set xs. kind (sets t ! a) \<noteq> Scope" for xs ys
    using that assms(1) by (induction xs) simp_all
  from this[of "rev inner" "rev outer"] assms(2) show ?thesis by simp
qed

lemma firstBinding_none:
  "\<forall>a \<in> set as. binding t a x = None \<Longrightarrow> firstBinding t x as = []"
  by (induction as) (simp_all add: firstBinding_def)

lemma getType_top_binding:
  assumes "top t = Some a" "binding t a x = Some ty"
  shows "getType t x None = ty"
proof -
  from assms(1) obtain ys where st: "rev (typeVariableSetStack t) = a # ys"
    by (cases "typeVariableSetStack t" rule: rev_cases) (simp_all add: top_def)
  from assms(2) obtain c where "map_of (variables (sets t ! a)) x = Some c"
    "tv_type (objs t ! c) = ty" by (auto simp: binding_def)
  then show ?thesis by (simp add: st)
qed

lemma getType_top_scope:
  assumes "top t = Some a" "kind (sets t ! a) = Scope"
  shows "getType t x None = typeIn t a x"
proof -
  from assms(1) obtain ys where st: "rev (typeVariableSetStack t) = a # ys"
    by (cases "typeVariableSetStack t" rule: rev_cases) (simp_all add: top_def)
  show ?thesis
    by (cases "map_of (variables (sets t ! a)) x")
      (simp_all add: st assms(2) typeIn_def binding_def)
qed

lemma pushScope_binding:
  assumes "reachable mrg t"
  shows "typeVariableSetStack (pushScope carry t) = typeVariableSetStack t @ [length (sets t)] \<and>
     kind (sets (pushScope carry t) ! length (sets t)) = Scope \<and>
     branches (sets (pushScope carry t) ! length (sets t)) = [] \<and>
     (\<forall>x. binding (pushScope carry t) (length (sets t)) x =
        (if (\<exists>cs. carry = Some cs \<and> x \<in> set cs) \<and> getType t x None \<noteq> []
         then Some (getType t x None) else None))"
proof -
  let ?N = "length (sets t)"
  have wf: "wf_table t" using assms by (rule reachable_wf)
  obtain vars t1 where e: "ext t t1" and cr: "carried t t1 vars"
    and dom: "\<forall>x. map_of vars x \<noteq> None \<longleftrightarrow>
       (\<exists>cs. carry = Some cs \<and> x \<in> set cs) \<and> getType t x None \<noteq> []"
    and t': "pushScope carry t =
       t1\<lparr>sets := sets t @ [\<lparr>kind = Scope, variables = vars, branches = []\<rparr>],
          typeVariableSetStack := typeVariableSetStack t @ [?N]\<rparr>"
    using pushScope_effect[OF wf_stack_cells_valid[OF wf]] by metis
  have new: "sets (pushScope carry t) ! ?N = \<lparr>kind = Scope, variables = vars, branches = []\<rparr>"
    by (simp add: t')
  have "binding (pushScope carry t) ?N x =
        (if (\<exists>cs. carry = Some cs \<and> x \<in> set cs) \<and> getType t x None \<noteq> []
         then Some (getType t x None) else None)" for x
  proof (cases "map_of vars x")
    case None
    with dom have c: "\<not> ((\<exists>cs. carry = Some cs \<and> x \<in> set cs) \<and> getType t x None \<noteq> [])"
      by blast
    have b: "binding (pushScope carry t) ?N x = None"
      using None by (simp add: binding_def new)
    show ?thesis unfolding b using c by simp
  next
    case (Some c)
    with cr have "tv_type (objs t1 ! c) = getType t x None" unfolding carried_def by blast
    moreover have "objs (pushScope carry t) = objs t1" by (simp add: t')
    ultimately have b: "binding (pushScope carry t) ?N x = Some (getType t x None)"
      using Some by (simp add: binding_def new)
    have c: "(\<exists>cs. carry = Some cs \<and> x \<in> set cs) \<and> getType t x None \<noteq> []"
      using dom Some by (metis option.distinct(1))
    show ?thesis unfolding b using c by simp
  qed
  then show ?thesis by (simp add: new) (simp add: t')
qed

lemma getType_pushScope:
  assumes "reachable mrg t"
  shows "getType (pushScope carry t) x None =
     (if (\<exists>cs. carry = Some cs \<and> x \<in> set cs) then getType t x None else [])"
proof -
  let ?u = "pushScope carry t"
  from pushScope_binding[OF assms, of carry]
  have st: "typeVariableSetStack ?u = typeVariableSetStack t @ [length (sets t)]"
    and k: "kind (sets ?u ! length (sets t)) = Scope"
    and b: "\<And>x. binding ?u (length (sets t)) x =
        (if (\<exists>cs. carry = Some cs \<and> x \<in> set cs) \<and> getType t x None \<noteq> []
         then Some (getType t x None) else None)"
    by blast+
  have "top ?u = Some (length (sets t))" by (simp add: top_def st)
  from getType_top_scope[OF this k]
  have "getType ?u x None = typeIn ?u (length (sets t)) x" .
  then show ?thesis by (simp add: typeIn_def b)
qed

lemma liveCellsI: "live u a \<Longrightarrow> c \<in> cells u a \<Longrightarrow> c \<in> liveCells u"
  unfolding liveCells_def by blast

lemma steps_reachable: "steps mrg t u \<Longrightarrow> reachable mrg t \<Longrightarrow> reachable mrg u"
proof (induction rule: steps.induct)
  case s_refl
  then show ?case .
next
  case (s_setType u v ty u')
  then show ?case using r_setType by blast
next
  case (s_pushScope u carry)
  then show ?case by (simp add: r_pushScope)
next
  case (s_popScope u)
  then show ?case by (simp add: r_popScope)
next
  case (s_pushBranch u u')
  then show ?case using r_pushBranch by blast
next
  case (s_popBranch u)
  then show ?case by (simp add: r_popBranch)
next
  case (s_pruneBranches u u')
  then show ?case using r_pruneBranches by blast
qed

lemma detached_step:
  assumes wf: "wf_table u" and sf: "step_frame u u'" and d: "detached u n"
  shows "detached u' n \<and> (\<forall>x. binding u' n x = binding u n x)"
proof -
  from d have n: "n < length (sets u)" and nl: "\<not> live u n"
    and dc: "cells u n \<inter> liveCells u = {}"
    by (simp_all add: detached_def)
  from sf have len: "length (sets u) \<le> length (sets u')"
    and same: "sets u' ! n = sets u ! n"
    and ob: "\<And>c. c < length (objs u) \<Longrightarrow> c \<notin> liveCells u \<Longrightarrow> objs u' ! c = objs u ! c"
    and lv: "\<And>a. live u' a \<Longrightarrow> live u a \<or> length (sets u) \<le> a"
    and lc: "\<And>a. live u' a \<Longrightarrow> cells u' a \<subseteq> liveCells u \<union> {c. length (objs u) \<le> c}"
    using n nl unfolding step_frame_def by blast+
  have ce: "cell u' n x = cell u n x" for x by (simp add: cell_def same)
  have cs: "cells u' n = cells u n" by (simp add: cells_def ce)
  have valid: "c < length (objs u)" if "c \<in> cells u n" for c
    using wf_table_cells_valid[OF wf n that] .
  have "binding u' n x = binding u n x" for x
  proof (cases "cell u n x")
    case None
    then show ?thesis by (simp add: binding_def cell_def[symmetric] ce)
  next
    case (Some c)
    then have c: "c \<in> cells u n" unfolding cells_def by blast
    with dc have "c \<notin> liveCells u" by blast
    from ob[OF valid[OF c] this] Some show ?thesis
      by (simp add: binding_def cell_def[symmetric] ce)
  qed
  moreover have "\<not> live u' n" using lv nl n by fastforce
  moreover have "cells u' n \<inter> liveCells u' = {}"
  proof (rule ccontr)
    assume "cells u' n \<inter> liveCells u' \<noteq> {}"
    then obtain c a where c: "c \<in> cells u n" and a: "live u' a" "c \<in> cells u' a"
      unfolding liveCells_def cs by blast
    from lc[OF a(1)] a(2) have "c \<in> liveCells u \<or> length (objs u) \<le> c" by blast
    then show False using dc c valid[OF c] by auto
  qed
  ultimately show ?thesis using n len by (simp add: detached_def)
qed

lemma live_grow:
  assumes "live u' x"
    and "\<And>y. y \<in> set (typeVariableSetStack u') \<Longrightarrow>
           y \<in> set (typeVariableSetStack u) \<or> length (sets u) \<le> y"
    and "\<And>p b. live u p \<Longrightarrow> b \<in> set (branches (sets u' ! p)) \<Longrightarrow>
           b \<in> set (branches (sets u ! p)) \<or> length (sets u) \<le> b"
    and "\<And>p b. live u' p \<Longrightarrow> length (sets u) \<le> p \<Longrightarrow> b \<in> set (branches (sets u' ! p)) \<Longrightarrow>
           length (sets u) \<le> b"
  shows "live u x \<or> length (sets u) \<le> x"
  using assms(1)
proof (induction rule: live.induct)
  case (live_stack a)
  from assms(2)[OF this] show ?case using live.live_stack by blast
next
  case (live_branch p b)
  from live_branch.IH show ?case
  proof
    assume lp: "live u p"
    from assms(3)[OF lp live_branch.hyps(2)] show ?thesis
      using lp live.live_branch by blast
  next
    assume "length (sets u) \<le> p"
    from assms(4)[OF live_branch.hyps(1) this live_branch.hyps(2)] show ?thesis by simp
  qed
qed

lemma setType_step_frame:
  assumes wf: "wf_table u" and st: "setType v ty u = Inr u'"
  shows "step_frame u u'"
  using st
proof (cases rule: setType_cases)
  case noop
  then show ?thesis by (auto simp: step_frame_def liveCells_def)
next
  case (upd a)
  let ?n = "length (objs u)"
  have a: "a < length (sets u)" using wf upd(1) top_valid by (simp add: wf_table_def)
  have la: "live u a" using upd(1) by (auto intro: live.live_stack top_in_stack)
  have stack: "typeVariableSetStack u' = typeVariableSetStack u" by (simp add: upd(4))
  have len: "length (sets u') = length (sets u)" by (simp add: upd(4))
  have olen: "length (objs u') = Suc ?n" by (simp add: upd(4))
  have old: "objs u' ! c = objs u ! c" if "c < ?n" for c
    using that by (simp add: upd(4) nth_append)
  have other: "sets u' ! s = sets u ! s" if "s \<noteq> a" for s
    using that by (simp add: upd(4))
  have br: "branches (sets u' ! s) = branches (sets u ! s)" for s
    using a by (cases "s = a") (simp_all add: upd(4))
  have cell: "cell u' s x = (if s = a \<and> x = v then Some ?n else cell u s x)" for s x
    using a by (cases "s = a") (simp_all add: upd(4) cell_def update_conv')
  have lv: "live u' = live u" by (rule live_eqI) (simp_all add: stack br)
  have sub: "cells u' s \<subseteq> insert ?n (cells u s)" for s
  proof
    fix c assume "c \<in> cells u' s"
    then obtain x where "cell u' s x = Some c" unfolding cells_def by blast
    then have "c = ?n \<or> cell u s x = Some c" by (cases "s = a \<and> x = v") (simp_all add: cell)
    then show "c \<in> insert ?n (cells u s)" unfolding cells_def by blast
  qed
  have "sets u' ! s = sets u ! s" if "\<not> live u s" for s
  proof -
    from that la have "s \<noteq> a" by auto
    then show ?thesis by (rule other)
  qed
  moreover have "cells u' s \<subseteq> liveCells u \<union> {c. ?n \<le> c}" if "live u s" for s
    using sub[of s] liveCellsI[OF that] by blast
  ultimately show ?thesis
    unfolding step_frame_def using old by (simp add: len olen lv)
qed

lemma pushScope_step_frame:
  assumes wf: "wf_table u"
  shows "step_frame u (pushScope carry u)"
proof -
  let ?N = "length (sets u)"
  let ?M = "length (objs u)"
  obtain vars u1 where e: "ext u u1" and cr: "carried u u1 vars"
    and t': "pushScope carry u =
       u1\<lparr>sets := sets u @ [\<lparr>kind = Scope, variables = vars, branches = []\<rparr>],
          typeVariableSetStack := typeVariableSetStack u @ [?N]\<rparr>"
    using pushScope_effect[OF wf_stack_cells_valid[OF wf]] by metis
  define w where "w = pushScope carry u"
  have stack: "typeVariableSetStack w = typeVariableSetStack u @ [?N]" by (simp add: w_def t')
  have len: "length (sets w) = Suc ?N" by (simp add: w_def t')
  have old: "sets w ! s = sets u ! s" if "s < ?N" for s
    using that by (simp add: w_def t' nth_append)
  have new: "sets w ! ?N = \<lparr>kind = Scope, variables = vars, branches = []\<rparr>"
    by (simp add: w_def t')
  have ob: "objs w = objs u1" by (simp add: w_def t')
  have olen: "?M \<le> length (objs w)" using ext_length[OF e] by (simp add: ob)
  have oold: "objs w ! c = objs u ! c" if "c < ?M" for c
    using ext_obj[OF e that] by (simp add: ob)
  have ww: "wf_table w" unfolding w_def using wf by (rule pushScope_wf)
  have lv: "live u x \<or> ?N \<le> x" if "live w x" for x
    using that
  proof (rule live_grow)
    fix y assume "y \<in> set (typeVariableSetStack w)"
    then show "y \<in> set (typeVariableSetStack u) \<or> ?N \<le> y" by (auto simp: stack)
  next
    fix p b assume "live u p" "b \<in> set (branches (sets w ! p))"
    moreover from this have "p < ?N" using wf wf_table_live_valid by blast
    ultimately show "b \<in> set (branches (sets u ! p)) \<or> ?N \<le> b" by (simp add: old)
  next
    fix p b assume h: "live w p" "?N \<le> p" "b \<in> set (branches (sets w ! p))"
    from wf_table_live_valid[OF ww h(1)] h(2) have "p = ?N" by (simp add: len)
    with h(3) show "?N \<le> b" by (simp add: new)
  qed
  have cs: "cells w a \<subseteq> liveCells u \<union> {c. ?M \<le> c}" if "live w a" for a
  proof (cases "live u a")
    case True
    then have "a < ?N" using wf wf_table_live_valid by blast
    then have "cells w a = cells u a" by (simp add: cells_def cell_def old)
    then show ?thesis using liveCellsI[OF True] by blast
  next
    case False
    with lv[OF that] have "?N \<le> a" by simp
    with wf_table_live_valid[OF ww that] have "a = ?N" by (simp add: len)
    moreover have "cells w ?N \<subseteq> {c. ?M \<le> c}"
      using cr unfolding cells_def carried_def by (auto simp: cell_def new)
    ultimately show ?thesis by blast
  qed
  show ?thesis
    unfolding step_frame_def w_def[symmetric] using lv cs old oold olen by (simp add: len)
qed

lemma pop_step_frame:
  "step_frame u (u\<lparr>typeVariableSetStack := butlast (typeVariableSetStack u)\<rparr>)"
proof -
  let ?w = "u\<lparr>typeVariableSetStack := butlast (typeVariableSetStack u)\<rparr>"
  have sub: "set (typeVariableSetStack ?w) \<subseteq> set (typeVariableSetStack u)"
    by (auto dest: in_set_butlastD)
  have lv: "live u a" if "live ?w a" for a
    using that by (rule live_mono) (use sub in simp_all)
  have c: "cells ?w a = cells u a" for a by (simp add: cells_def cell_def)
  have "cells ?w a \<subseteq> liveCells u \<union> {c. length (objs u) \<le> c}" if "live ?w a" for a
    using liveCellsI[OF lv[OF that]] c by blast
  then show ?thesis unfolding step_frame_def using lv by simp
qed

lemma pushBranch_step_frame:
  assumes wf: "wf_table u" and pb: "pushBranch u = Inr w"
  shows "step_frame u w"
  using pb
proof (cases rule: pushBranch_cases)
  case (1 a)
  let ?N = "length (sets u)"
  have a: "a < ?N" using wf 1(1) top_valid by (simp add: wf_table_def)
  have la: "live u a" using 1(1) by (auto intro: live.live_stack top_in_stack)
  have stack: "typeVariableSetStack w = typeVariableSetStack u @ [?N]" by (simp add: 1(2))
  have len: "length (sets w) = Suc ?N" by (simp add: 1(2))
  have ob: "objs w = objs u" by (simp add: 1(2))
  have new: "sets w ! ?N = \<lparr>kind = Branch, variables = [], branches = []\<rparr>"
    by (simp add: 1(2) nth_append)
  have other: "sets w ! s = sets u ! s" if "s < ?N" "s \<noteq> a" for s
    using that by (simp add: 1(2) nth_append)
  have vars: "variables (sets w ! s) = variables (sets u ! s)" if "s < ?N" for s
    using that a by (cases "s = a") (simp_all add: 1(2) nth_append)
  have br: "branches (sets w ! s) = (if s = a then branches (sets u ! a) @ [?N]
                                     else branches (sets u ! s))" if "s < ?N" for s
    using that a by (cases "s = a") (simp_all add: 1(2) nth_append)
  have ww: "wf_table w" using wf pb by (rule pushBranch_wf)
  have lv: "live u x \<or> ?N \<le> x" if "live w x" for x
    using that
  proof (rule live_grow)
    fix y assume "y \<in> set (typeVariableSetStack w)"
    then show "y \<in> set (typeVariableSetStack u) \<or> ?N \<le> y" by (auto simp: stack)
  next
    fix p b assume "live u p" "b \<in> set (branches (sets w ! p))"
    moreover from this have "p < ?N" using wf wf_table_live_valid by blast
    ultimately show "b \<in> set (branches (sets u ! p)) \<or> ?N \<le> b"
      by (cases "p = a") (auto simp: br)
  next
    fix p b assume h: "live w p" "?N \<le> p" "b \<in> set (branches (sets w ! p))"
    from wf_table_live_valid[OF ww h(1)] h(2) have "p = ?N" by (simp add: len)
    with h(3) show "?N \<le> b" by (simp add: new)
  qed
  have cs: "cells w x \<subseteq> liveCells u \<union> {c. length (objs u) \<le> c}" if "live w x" for x
  proof (cases "live u x")
    case True
    then have "x < ?N" using wf wf_table_live_valid by blast
    then have "cells w x = cells u x" by (simp add: cells_def cell_def vars)
    then show ?thesis using liveCellsI[OF True] by blast
  next
    case False
    with lv[OF that] have "?N \<le> x" by simp
    with wf_table_live_valid[OF ww that] have "x = ?N" by (simp add: len)
    then show ?thesis by (simp add: cells_def cell_def new)
  qed
  have same: "sets w ! s = sets u ! s" if "s < ?N" "\<not> live u s" for s
  proof -
    from that la have "s \<noteq> a" by auto
    with that(1) show ?thesis by (rule other)
  qed
  show ?thesis
    unfolding step_frame_def using lv cs same by (simp add: len ob)
qed

lemma pruneBranches_step_frame:
  assumes wf: "wf_table u" and pr: "pruneBranches mrg u = Inr w"
  shows "step_frame u w"
proof -
  from pr obtain a where top: "top u = Some a"
    by (cases "top u") (simp_all add: pruneBranches_def)
  let ?bs = "branches (sets u ! a)"
  let ?u0 = "u\<lparr>sets := (sets u)[a := (sets u ! a)\<lparr>branches := []\<rparr>]\<rparr>"
  from pruneBranches_effect[OF wf top, of mrg] pr
  have fr: "frame a ?u0 w"
    and sub: "cells w a \<subseteq> cells u a \<union> (\<Union>b \<in> set ?bs. cells u b)"
    and mut: "\<And>c. objs w ! c \<noteq> objs u ! c \<Longrightarrow> c \<in> cells u a \<union> (\<Union>b \<in> set ?bs. cells u b)"
    by simp_all
  have a: "a < length (sets u)" using wf top top_valid by (simp add: wf_table_def)
  have la: "live u a" using top by (auto intro: live.live_stack top_in_stack)
  have lb: "live u b" if "b \<in> set ?bs" for b using la that by (rule live.live_branch)
  have stack: "typeVariableSetStack w = typeVariableSetStack u"
    and len: "length (sets w) = length (sets u)"
    and olen: "length (objs w) = length (objs u)"
    using fr by (simp_all add: frame_def)
  have oth: "sets w ! s = sets u ! s" if "s \<noteq> a" for s
    using fr that by (simp add: frame_def)
  have bra: "branches (sets w ! a) = []" using fr a by (simp add: frame_def)
  have brsub: "set (branches (sets w ! s)) \<subseteq> set (branches (sets u ! s))" for s
    by (cases "s = a") (simp_all add: bra oth)
  have lv: "live u x" if "live w x" for x
    using that by (rule live_mono) (use brsub in \<open>simp_all add: stack\<close>)
  have inl: "cells u a \<union> (\<Union>b \<in> set ?bs. cells u b) \<subseteq> liveCells u"
    using liveCellsI[OF la] liveCellsI[OF lb] by blast
  have cs: "cells w x \<subseteq> liveCells u \<union> {c. length (objs u) \<le> c}" if "live w x" for x
  proof (cases "x = a")
    case True
    then show ?thesis using sub inl by blast
  next
    case False
    then have "cells w x = cells u x" by (simp add: cells_def cell_def oth)
    then show ?thesis using liveCellsI[OF lv[OF that]] by blast
  qed
  have same: "sets w ! s = sets u ! s" if "\<not> live u s" for s
  proof -
    from that la have "s \<noteq> a" by auto
    then show ?thesis by (rule oth)
  qed
  have ob: "objs w ! c = objs u ! c" if "c \<notin> liveCells u" for c
    using that mut inl by blast
  show ?thesis
    unfolding step_frame_def using lv cs same ob by (simp add: len olen)
qed

lemma steps_detached:
  assumes "steps mrg t u" "reachable mrg t" "detached t n"
  shows "detached u n \<and> (\<forall>x. binding u n x = binding t n x)"
  using assms
proof (induction rule: steps.induct)
  case s_refl
  then show ?case by simp
next
  case (s_setType u v ty u')
  then have ih: "detached u n" "\<forall>x. binding u n x = binding t n x" by simp_all
  have wf: "wf_table u" using steps_reachable[OF s_setType.hyps(1) s_setType.prems(1)]
    by (rule reachable_wf)
  from detached_step[OF wf setType_step_frame[OF wf s_setType.hyps(2)] ih(1)] ih(2)
  show ?case by simp
next
  case (s_pushScope u carry)
  then have ih: "detached u n" "\<forall>x. binding u n x = binding t n x" by simp_all
  have wf: "wf_table u" using steps_reachable[OF s_pushScope.hyps(1) s_pushScope.prems(1)]
    by (rule reachable_wf)
  from detached_step[OF wf pushScope_step_frame[OF wf] ih(1)] ih(2)
  show ?case by simp
next
  case (s_popScope u)
  then have ih: "detached u n" "\<forall>x. binding u n x = binding t n x" by simp_all
  have wf: "wf_table u" using steps_reachable[OF s_popScope.hyps(1) s_popScope.prems(1)]
    by (rule reachable_wf)
  from detached_step[OF wf pop_step_frame ih(1)] ih(2)
  show ?case by (simp add: popScope_def)
next
  case (s_pushBranch u u')
  then have ih: "detached u n" "\<forall>x. binding u n x = binding t n x" by simp_all
  have wf: "wf_table u" using steps_reachable[OF s_pushBranch.hyps(1) s_pushBranch.prems(1)]
    by (rule reachable_wf)
  from detached_step[OF wf pushBranch_step_frame[OF wf s_pushBranch.hyps(2)] ih(1)] ih(2)
  show ?case by simp
next
  case (s_popBranch u)
  then have ih: "detached u n" "\<forall>x. binding u n x = binding t n x" by simp_all
  have wf: "wf_table u" using steps_reachable[OF s_popBranch.hyps(1) s_popBranch.prems(1)]
    by (rule reachable_wf)
  from detached_step[OF wf pop_step_frame ih(1)] ih(2)
  show ?case by (simp add: popBranch_def)
next
  case (s_pruneBranches u u')
  then have ih: "detached u n" "\<forall>x. binding u n x = binding t n x" by simp_all
  have wf: "wf_table u"
    using steps_reachable[OF s_pruneBranches.hyps(1) s_pruneBranches.prems(1)]
    by (rule reachable_wf)
  from detached_step[OF wf pruneBranches_step_frame[OF wf s_pruneBranches.hyps(2)] ih(1)] ih(2)
  show ?case by simp
qed

lemma foldl_join2_keeps: "p \<noteq> None \<Longrightarrow> foldl (join2 mrg) p qs \<noteq> None"
proof (induction qs arbitrary: p)
  case Nil
  then show ?case by simp
next
  case (Cons q qs)
  from Cons.prems have "join2 mrg p q \<noteq> None"
    by (cases p; cases q) (simp_all add: join2_def)
  then show ?case using Cons.IH by simp
qed

lemma foldl_join2_present:
  "q \<in> set qs \<Longrightarrow> q \<noteq> None \<Longrightarrow> foldl (join2 mrg) p qs \<noteq> None"
proof (induction qs arbitrary: p)
  case Nil
  then show ?case by simp
next
  case (Cons r qs)
  show ?case
  proof (cases "q = r")
    case True
    with Cons.prems(2) have "join2 mrg p r \<noteq> None"
      by (cases p; cases r) (simp_all add: join2_def)
    then show ?thesis using foldl_join2_keeps by simp
  next
    case False
    with Cons.prems have "q \<in> set qs" by simp
    then show ?thesis using Cons.IH Cons.prems(2) by simp
  qed
qed

lemma foldl_join2_all_None: "\<forall>q \<in> set qs. q = None \<Longrightarrow> foldl (join2 mrg) p qs = p"
  by (induction qs arbitrary: p) (simp_all add: join2_def)

lemma foldl_join2_single:
  assumes "i < length qs" "\<forall>j < length qs. j \<noteq> i \<longrightarrow> qs ! j = None"
  shows "foldl (join2 mrg) None qs = qs ! i"
proof -
  have qs: "qs = take i qs @ qs ! i # drop (Suc i) qs"
    using assms(1) by (simp add: id_take_nth_drop)
  have a: "\<forall>q \<in> set (take i qs). q = None"
  proof
    fix q assume "q \<in> set (take i qs)"
    then obtain j where "j < length (take i qs)" "take i qs ! j = q"
      by (auto simp: in_set_conv_nth)
    then show "q = None" using assms by simp
  qed
  have b: "\<forall>q \<in> set (drop (Suc i) qs). q = None"
  proof
    fix q assume "q \<in> set (drop (Suc i) qs)"
    then obtain j where j: "j < length (drop (Suc i) qs)" "drop (Suc i) qs ! j = q"
      by (auto simp: in_set_conv_nth)
    then have "qs ! (Suc i + j) = q" "Suc i + j < length qs" by simp_all
    then show "q = None" using assms(2) by auto
  qed
  have "foldl (join2 mrg) None qs =
        foldl (join2 mrg) (join2 mrg (foldl (join2 mrg) None (take i qs)) (qs ! i)) (drop (Suc i) qs)"
    by (subst qs) simp
  also have "\<dots> = join2 mrg None (qs ! i)"
    by (simp add: foldl_join2_all_None[OF a] foldl_join2_all_None[OF b])
  also have "\<dots> = qs ! i" by (cases "qs ! i") (simp_all add: join2_def)
  finally show ?thesis .
qed

text \<open>
  C1. \<open>pruneBranches\<close> is the control-flow join. In every table state that the public
  methods can produce and whose stack is not empty, the call succeeds, leaves the stack as
  it is and empties the recorded-children list of the top set. For every name, the binding
  of the top set afterwards is the left-to-right type union (\<open>join2\<close> folded with the
  type-string merge) of its own previous binding and the bindings held by the recorded
  branches, in recording order. Hence a name bound in any recorded branch is bound
  afterwards, a name bound in exactly one branch and nowhere else keeps that type, and
  \<open>getType\<close> reports the joined type. None of the merged branches is still on the lookup
  stack: they were all removed by \<open>popBranch\<close> before.
\<close>

theorem pruneBranches_joins_recorded_branches:
  assumes "reachable mrg t" and "top t = Some node"
  shows "\<exists>t'. pruneBranches mrg t = Inr t' \<and>
      typeVariableSetStack t' = typeVariableSetStack t \<and>
      branches (sets t' ! node) = [] \<and>
      (\<forall>b \<in> set (branches (sets t ! node)). b \<notin> set (typeVariableSetStack t)) \<and>
      (\<forall>x. binding t' node x =
         foldl (join2 mrg) (binding t node x)
           (map (\<lambda>b. binding t b x) (branches (sets t ! node)))) \<and>
      (\<forall>b \<in> set (branches (sets t ! node)). \<forall>x.
         binding t b x \<noteq> None \<longrightarrow> binding t' node x \<noteq> None) \<and>
      (\<forall>x i. binding t node x = None \<and> i < length (branches (sets t ! node)) \<and>
         (\<forall>j < length (branches (sets t ! node)). j \<noteq> i \<longrightarrow>
            binding t (branches (sets t ! node) ! j) x = None) \<longrightarrow>
         binding t' node x = binding t (branches (sets t ! node) ! i) x) \<and>
      (\<forall>x ty. binding t' node x = Some ty \<longrightarrow> getType t' x None = ty)"
proof -
  let ?bs = "branches (sets t ! node)"
  let ?u = "t\<lparr>sets := (sets t)[node := (sets t ! node)\<lparr>branches := []\<rparr>]\<rparr>"
  have wf: "wf_table t" using assms(1) by (rule reachable_wf)
  have a: "node < length (sets t)" using wf assms(2) top_valid by (simp add: wf_table_def)
  from pruneBranches_effect[OF wf assms(2), of mrg]
  obtain t' where run: "pruneBranches mrg t = Inr t'" and fr: "frame node ?u t'"
    and ba: "\<And>x. binding t' node x =
         foldl (join2 mrg) (binding t node x) (map (\<lambda>b. binding t b x) ?bs)"
    by blast
  have st: "typeVariableSetStack t' = typeVariableSetStack t"
    using fr by (simp add: frame_def)
  have br: "branches (sets t' ! node) = []" using fr a by (simp add: frame_def)
  have popped: "b \<notin> set (typeVariableSetStack t)" if "b \<in> set ?bs" for b
  proof
    assume "b \<in> set (typeVariableSetStack t)"
    then have "b \<le> node"
      using wf assms(2) sorted_wrt_less_le_last
      by (auto simp: wf_table_def wf_stack_def top_Some)
    moreover have "node < b" using wf a that unfolding wf_table_def wf_branches_def by blast
    ultimately show False by simp
  qed
  have present: "binding t' node x \<noteq> None" if "b \<in> set ?bs" "binding t b x \<noteq> None" for b x
  proof -
    have "binding t b x \<in> set (map (\<lambda>b. binding t b x) ?bs)" using that(1) by simp
    from foldl_join2_present[OF this that(2)] show ?thesis by (simp add: ba)
  qed
  have single: "binding t' node x = binding t (?bs ! i) x"
    if "binding t node x = None" "i < length ?bs"
      "\<forall>j < length ?bs. j \<noteq> i \<longrightarrow> binding t (?bs ! j) x = None" for x i
  proof -
    have "foldl (join2 mrg) None (map (\<lambda>b. binding t b x) ?bs) = map (\<lambda>b. binding t b x) ?bs ! i"
      by (rule foldl_join2_single) (use that in simp_all)
    then show ?thesis using that(1,2) by (simp add: ba)
  qed
  have top': "top t' = Some node" using assms(2) by (simp add: top_Some st)
  have gt: "getType t' x None = ty" if "binding t' node x = Some ty" for x ty
    using top' that by (rule getType_top_binding)
  show ?thesis
  proof (rule exI[of _ t'], intro conjI)
    show "pruneBranches mrg t = Inr t'" by (rule run)
    show "typeVariableSetStack t' = typeVariableSetStack t" by (rule st)
    show "branches (sets t' ! node) = []" by (rule br)
    show "\<forall>b \<in> set ?bs. b \<notin> set (typeVariableSetStack t)" using popped by blast
    show "\<forall>x. binding t' node x =
         foldl (join2 mrg) (binding t node x) (map (\<lambda>b. binding t b x) ?bs)"
      using ba by blast
    show "\<forall>b \<in> set ?bs. \<forall>x. binding t b x \<noteq> None \<longrightarrow> binding t' node x \<noteq> None"
      using present by blast
    show "\<forall>x i. binding t node x = None \<and> i < length ?bs \<and>
         (\<forall>j < length ?bs. j \<noteq> i \<longrightarrow> binding t (?bs ! j) x = None) \<longrightarrow>
         binding t' node x = binding t (?bs ! i) x"
      using single by blast
    show "\<forall>x ty. binding t' node x = Some ty \<longrightarrow> getType t' x None = ty"
      using gt by blast
  qed
qed

lemma reachable_ifElseTable: "reachable mrg ifElseTable"
proof -
  let ?x = "''$x''"
  let ?s0 = "\<lparr>kind = Scope, variables = [], branches = [1]\<rparr>"
  let ?s0' = "\<lparr>kind = Scope, variables = [], branches = [1, 2]\<rparr>"
  let ?b = "\<lparr>kind = Branch, variables = [], branches = []\<rparr>"
  let ?b1 = "\<lparr>kind = Branch, variables = [(?x, 0)], branches = []\<rparr>"
  let ?o1 = "\<lparr>tv_name = ?x, tv_type = ''int''\<rparr>"
  let ?o2 = "\<lparr>tv_name = ?x, tv_type = ''string''\<rparr>"
  let ?t1 = "\<lparr>objs = [], sets = [?s0, ?b], typeVariableSetStack = [0, 1]\<rparr>"
  let ?t2 = "\<lparr>objs = [?o1], sets = [?s0, ?b1], typeVariableSetStack = [0, 1]\<rparr>"
  let ?t3 = "\<lparr>objs = [?o1], sets = [?s0', ?b1, ?b], typeVariableSetStack = [0, 2]\<rparr>"
  let ?t4 = "\<lparr>objs = [?o1, ?o2],
      sets = [?s0', ?b1, \<lparr>kind = Branch, variables = [(?x, 1)], branches = []\<rparr>],
      typeVariableSetStack = [0, 2]\<rparr>"
  have "pushBranch create = Inr ?t1" by (simp add: pushBranch_def create_def top_def)
  with r_create have r1: "reachable mrg ?t1" by (rule r_pushBranch)
  have "setType ?x ''int'' ?t1 = Inr ?t2" by (simp add: setType_def top_def)
  with r1 have r2: "reachable mrg ?t2" by (rule r_setType)
  have "pushBranch (popBranch ?t2) = Inr ?t3" by (simp add: pushBranch_def popBranch_def top_def)
  with r_popBranch[OF r2] have r3: "reachable mrg ?t3" by (rule r_pushBranch)
  have "setType ?x ''string'' ?t3 = Inr ?t4" by (simp add: setType_def top_def)
  with r3 have r4: "reachable mrg ?t4" by (rule r_setType)
  have "popBranch ?t4 = ifElseTable" by (simp add: popBranch_def ifElseTable_def)
  with r_popBranch[OF r4] show ?thesis by simp
qed

theorem pruneBranches_joins_recorded_branches_witness:
  "reachable concatMerge ifElseTable \<and> top ifElseTable = Some 0 \<and>
   (\<exists>t'. pruneBranches concatMerge ifElseTable = Inr t' \<and>
      branches (sets t' ! 0) = [] \<and>
      binding t' 0 ''$x'' = Some ''int|string'' \<and>
      getType t' ''$x'' None = ''int|string'')"
proof -
  have r: "reachable concatMerge ifElseTable" by (rule reachable_ifElseTable)
  have tp: "top ifElseTable = Some 0" by (simp add: top_def ifElseTable_def)
  from pruneBranches_joins_recorded_branches[OF r tp]
  obtain t' where run: "pruneBranches concatMerge ifElseTable = Inr t'"
    and br: "branches (sets t' ! 0) = []"
    and ba: "\<And>x. binding t' 0 x =
         foldl (join2 concatMerge) (binding ifElseTable 0 x)
           (map (\<lambda>b. binding ifElseTable b x) (branches (sets ifElseTable ! 0)))"
    and gt: "\<And>x ty. binding t' 0 x = Some ty \<Longrightarrow> getType t' x None = ty"
    by blast
  have "foldl (join2 concatMerge) (binding ifElseTable 0 ''$x'')
           (map (\<lambda>b. binding ifElseTable b ''$x'') (branches (sets ifElseTable ! 0))) =
        Some ''int|string''"
    by (simp add: ifElseTable_def binding_def join2_def concatMerge_def)
  with ba[of "''$x''"] have b: "binding t' 0 ''$x'' = Some ''int|string''" by simp
  from gt[OF b] have "getType t' ''$x'' None = ''int|string''" .
  with r tp run br b show ?thesis by blast
qed

text \<open>
  C2. \<open>getType\<close> (called without a class name) walks the stack from the top down and
  returns the type held by the first set that binds the name, looking no further than the
  nearest enclosing \<open>Scope\<close> set: \<open>visible\<close> lists the sets from the top down to and
  including that scope, and \<open>firstBinding\<close> takes the first of them that binds the name
  (the empty string when none does). So when the stack is \<open>outer @ s # inner\<close> with \<open>s\<close>
  the nearest scope, only \<open>s\<close> and the branches above it are inspected, and a name bound
  only in \<open>outer\<close> reads as the empty string. In particular a variable bound in one
  function's scope is invisible in a sibling scope pushed after the first one was popped,
  unless the sibling explicitly carries it in.
\<close>

theorem getType_stops_at_nearest_scope:
  shows "getType t x None = firstBinding t x (visible t (rev (typeVariableSetStack t))) \<and>
    (\<forall>outer s inner.
       typeVariableSetStack t = outer @ s # inner \<and> kind (sets t ! s) = Scope \<and>
       (\<forall>a \<in> set inner. kind (sets t ! a) \<noteq> Scope) \<longrightarrow>
         visible t (rev (typeVariableSetStack t)) = rev inner @ [s] \<and>
         getType t x None = firstBinding t x (rev inner @ [s]) \<and>
         ((\<forall>a \<in> set (s # inner). binding t a x = None) \<longrightarrow> getType t x None = [])) \<and>
    (\<forall>mrg c1 c2 v ty t2.
       reachable mrg t \<and> setType v ty (pushScope c1 t) = Inr t2 \<and> v \<noteq> [] \<and> ty \<noteq> [] \<and>
       (\<forall>cs. c2 = Some cs \<longrightarrow> v \<notin> set cs) \<longrightarrow>
         getType t2 v None = ty \<and> getType (pushScope c2 (popScope t2)) v None = [])"
proof (intro conjI allI impI)
  show "getType t x None = firstBinding t x (visible t (rev (typeVariableSetStack t)))"
    by (rule getType_visible)
next
  fix outer s inner
  assume h: "typeVariableSetStack t = outer @ s # inner \<and> kind (sets t ! s) = Scope \<and>
       (\<forall>a \<in> set inner. kind (sets t ! a) \<noteq> Scope)"
  then have v: "visible t (rev (outer @ s # inner)) = rev inner @ [s]"
    using visible_scope by blast
  from h v show "visible t (rev (typeVariableSetStack t)) = rev inner @ [s]" by simp
  from h v show "getType t x None = firstBinding t x (rev inner @ [s])"
    by (simp add: getTypeLoop_visible)
  assume "\<forall>a \<in> set (s # inner). binding t a x = None"
  then have "\<forall>a \<in> set (rev inner @ [s]). binding t a x = None" by simp
  from firstBinding_none[OF this] h v show "getType t x None = []"
    by (simp add: getTypeLoop_visible)
next
  fix mrg c1 c2 v ty t2
  assume h: "reachable mrg t \<and> setType v ty (pushScope c1 t) = Inr t2 \<and> v \<noteq> [] \<and> ty \<noteq> [] \<and>
       (\<forall>cs. c2 = Some cs \<longrightarrow> v \<notin> set cs)"
  let ?u = "pushScope c1 t"
  let ?N = "length (sets t)"
  from h have r1: "reachable mrg ?u" by (simp add: r_pushScope)
  with h have r2: "reachable mrg t2" using r_setType by blast
  then have r3: "reachable mrg (popScope t2)" by (rule r_popScope)
  from h have st: "typeVariableSetStack ?u = typeVariableSetStack t @ [?N]"
    using pushScope_binding by blast
  then have tp: "top ?u = Some ?N" by (simp add: top_def)
  from h have run: "setType v ty ?u = Inr t2" by simp
  then have t2: "t2 = ?u\<lparr>objs := objs ?u @ [\<lparr>tv_name = v, tv_type = ty\<rparr>],
              sets := (sets ?u)[?N := (sets ?u ! ?N)
                \<lparr>variables := AList.update v (length (objs ?u)) (variables (sets ?u ! ?N))\<rparr>]\<rparr>"
    using h tp by (simp add: setType_def)
  have lN: "?N < length (sets ?u)"
    using reachable_wf[OF r1] tp top_valid by (simp add: wf_table_def)
  have "binding t2 ?N v = Some ty"
    by (subst t2) (simp add: binding_def lN update_conv')
  moreover have "top t2 = Some ?N" by (subst t2) (simp add: top_def st)
  ultimately show "getType t2 v None = ty" by (rule getType_top_binding[rotated])
  from h have nc: "\<not> (\<exists>cs. c2 = Some cs \<and> v \<in> set cs)" by blast
  show "getType (pushScope c2 (popScope t2)) v None = []"
    unfolding getType_pushScope[OF r3, of c2 v] using nc by (rule if_not_P)
qed

theorem getType_stops_at_nearest_scope_witness:
  "typeVariableSetStack nestedTable = [0] @ 1 # [2] \<and> kind (sets nestedTable ! 1) = Scope \<and>
   kind (sets nestedTable ! 2) \<noteq> Scope \<and>
   binding nestedTable 0 ''$a'' = Some ''int'' \<and>
   getType nestedTable ''$a'' None = [] \<and> getType nestedTable ''$b'' None = ''string'' \<and>
   reachable concatMerge create \<and>
   setType ''$v'' ''int'' (pushScope None create) =
     Inr \<lparr>objs = [\<lparr>tv_name = ''$v'', tv_type = ''int''\<rparr>],
          sets = [\<lparr>kind = Scope, variables = [], branches = []\<rparr>,
                  \<lparr>kind = Scope, variables = [(''$v'', 0)], branches = []\<rparr>],
          typeVariableSetStack = [0, 1]\<rparr> \<and>
   getType (pushScope None (popScope
        \<lparr>objs = [\<lparr>tv_name = ''$v'', tv_type = ''int''\<rparr>],
          sets = [\<lparr>kind = Scope, variables = [], branches = []\<rparr>,
                  \<lparr>kind = Scope, variables = [(''$v'', 0)], branches = []\<rparr>],
          typeVariableSetStack = [0, 1]\<rparr>)) ''$v'' None = []"
proof -
  let ?t2 = "\<lparr>objs = [\<lparr>tv_name = ''$v'', tv_type = ''int''\<rparr>],
          sets = [\<lparr>kind = Scope, variables = [], branches = []\<rparr>,
                  \<lparr>kind = Scope, variables = [(''$v'', 0)], branches = []\<rparr>],
          typeVariableSetStack = [0, 1]\<rparr>"
  have a: "typeVariableSetStack nestedTable = [0] @ 1 # [2] \<and>
      kind (sets nestedTable ! 1) = Scope \<and>
      (\<forall>a \<in> set [2]. kind (sets nestedTable ! a) \<noteq> Scope)"
    by (simp add: nestedTable_def)
  have b0: "binding nestedTable 0 ''$a'' = Some ''int''"
    by (simp add: nestedTable_def binding_def)
  have n: "\<forall>a \<in> set (1 # [2]). binding nestedTable a ''$a'' = None"
    by (simp add: nestedTable_def binding_def)
  have fb: "firstBinding nestedTable ''$b'' (rev [2] @ [1]) = ''string''"
    by (simp add: firstBinding_def typeIn_def nestedTable_def binding_def)
  have r: "reachable concatMerge create" by (rule r_create)
  have s: "setType ''$v'' ''int'' (pushScope None create) = Inr ?t2"
    by (simp add: setType_def pushScope_def create_def top_def)
  have c: "\<forall>cs. (None :: string list option) = Some cs \<longrightarrow> ''$v'' \<notin> set cs" by simp
  from getType_stops_at_nearest_scope[of nestedTable "''$a''"] a n
  have g1: "getType nestedTable ''$a'' None = []" by blast
  from getType_stops_at_nearest_scope[of nestedTable "''$b''"] a fb
  have g2: "getType nestedTable ''$b'' None = ''string''" by metis
  from getType_stops_at_nearest_scope[of create "''$v''"] r s c
  have g3: "getType (pushScope None (popScope ?t2)) ''$v'' None = []"
    by (metis list.distinct(1))
  have k: "kind (sets nestedTable ! 2) \<noteq> Scope" by (simp add: nestedTable_def)
  from a k b0 g1 g2 r s g3 show ?thesis by blast
qed

text \<open>
  C10. With a non-empty \<open>className\<close> argument, \<open>getType\<close> answers \<open>className\<close> for
  \<open>$this\<close> whatever the table holds; without one (or with an empty one) \<open>$this\<close> is
  looked up through the stack by the same search as every other name, and for any other
  name the \<open>className\<close> argument is ignored.
\<close>

theorem getType_this_returns_className:
  shows "(className \<noteq> [] \<longrightarrow> getType t ''$this'' (Some className) = className) \<and>
    getType t ''$this'' None = firstBinding t ''$this'' (visible t (rev (typeVariableSetStack t))) \<and>
    getType t ''$this'' (Some []) = getType t ''$this'' None \<and>
    (\<forall>x. getType t x None = firstBinding t x (visible t (rev (typeVariableSetStack t)))) \<and>
    (\<forall>x. x \<noteq> ''$this'' \<longrightarrow> getType t x (Some className) = getType t x None)"
  by (simp add: getTypeLoop_visible)

theorem getType_this_returns_className_witness:
  "''Bar'' \<noteq> [] \<and> getType thisTable ''$this'' (Some ''Bar'') = ''Bar'' \<and>
   getType thisTable ''$this'' None = ''Foo'' \<and>
   ''$x'' \<noteq> ''$this'' \<and> getType thisTable ''$x'' (Some ''Bar'') = getType thisTable ''$x'' None"
proof -
  have "firstBinding thisTable ''$this'' (visible thisTable (rev (typeVariableSetStack thisTable)))
      = ''Foo''"
    by (simp add: firstBinding_def typeIn_def thisTable_def binding_def)
  with getType_this_returns_className[of "''Bar''" thisTable] show ?thesis by simp
qed

lemma carriedNames_iff: "x \<in> carriedNames carry \<longleftrightarrow> (\<exists>cs. carry = Some cs \<and> x \<in> set cs)"
  by (cases carry) (simp_all add: carriedNames_def)

lemma popScope_pushScope_detached:
  assumes r: "reachable mrg t"
  shows "detached (popScope (pushScope carry t)) (length (sets t))"
proof -
  let ?N = "length (sets t)"
  let ?M = "length (objs t)"
  let ?w = "popScope (pushScope carry t)"
  have wf: "wf_table t" using r by (rule reachable_wf)
  obtain vars t1 where e: "ext t t1" and cr: "carried t t1 vars"
    and t': "pushScope carry t =
       t1\<lparr>sets := sets t @ [\<lparr>kind = Scope, variables = vars, branches = []\<rparr>],
          typeVariableSetStack := typeVariableSetStack t @ [?N]\<rparr>"
    using pushScope_effect[OF wf_stack_cells_valid[OF wf]] by metis
  have stack: "typeVariableSetStack ?w = typeVariableSetStack t" by (simp add: popScope_def t')
  have len: "length (sets ?w) = Suc ?N" by (simp add: popScope_def t')
  have old: "sets ?w ! s = sets t ! s" if "s < ?N" for s
    using that by (simp add: popScope_def t' nth_append)
  have new: "sets ?w ! ?N = \<lparr>kind = Scope, variables = vars, branches = []\<rparr>"
    by (simp add: popScope_def t')
  have lv: "live t x \<and> x < ?N" if "live ?w x" for x
    using that
  proof (induction rule: live.induct)
    case (live_stack a)
    then have "live t a" by (simp add: stack live.live_stack)
    then show ?case using wf wf_table_live_valid by blast
  next
    case (live_branch p b)
    then have "b \<in> set (branches (sets t ! p))" by (simp add: old)
    with live_branch.IH have "live t b" using live.live_branch by blast
    then show ?case using wf wf_table_live_valid by blast
  qed
  have fresh: "cells ?w ?N \<subseteq> {c. ?M \<le> c}"
    using cr unfolding cells_def carried_def by (auto simp: cell_def new)
  have oldc: "cells ?w a \<subseteq> {c. c < ?M}" if "live ?w a" for a
  proof -
    from lv[OF that] have a: "a < ?N" by simp
    then have "cells ?w a = cells t a" by (simp add: cells_def cell_def old)
    then show ?thesis using wf_table_cells_valid[OF wf a] by blast
  qed
  have "\<not> live ?w ?N" using lv by blast
  moreover have "cells ?w ?N \<inter> liveCells ?w = {}"
    using fresh oldc unfolding liveCells_def by fastforce
  ultimately show ?thesis by (simp add: detached_def len)
qed

text \<open>
  C9. \<open>pushScope carry\<close> pushes a fresh \<open>Scope\<close> set without recorded branches whose
  bindings are exactly the carried names for which \<open>getType\<close> currently reports a non-empty
  type, each bound to that type. Inside the new scope \<open>getType\<close> reports the captured type
  for a carried name and the empty string for every other name. The capture is by value:
  the scope owns freshly created TypedVariable objects, so once it has been left, no
  sequence of later operations on the table (rebinding the name outside with \<open>setType\<close>,
  or widening its type in place through a branch merge) changes what the scope recorded.
\<close>

theorem pushScope_captures_by_value:
  assumes "reachable mrg t"
  shows "typeVariableSetStack (pushScope carry t) = typeVariableSetStack t @ [length (sets t)] \<and>
    kind (sets (pushScope carry t) ! length (sets t)) = Scope \<and>
    branches (sets (pushScope carry t) ! length (sets t)) = [] \<and>
    (\<forall>x. binding (pushScope carry t) (length (sets t)) x =
       (if x \<in> carriedNames carry \<and> getType t x None \<noteq> []
        then Some (getType t x None) else None)) \<and>
    (\<forall>x. x \<in> carriedNames carry \<longrightarrow> getType (pushScope carry t) x None = getType t x None) \<and>
    (\<forall>x. x \<notin> carriedNames carry \<longrightarrow> getType (pushScope carry t) x None = []) \<and>
    (\<forall>u. steps mrg (popScope (pushScope carry t)) u \<longrightarrow>
       (\<forall>x. binding u (length (sets t)) x = binding (pushScope carry t) (length (sets t)) x))"
proof -
  let ?t' = "pushScope carry t"
  let ?N = "length (sets t)"
  from pushScope_binding[OF assms, of carry]
  have st: "typeVariableSetStack ?t' = typeVariableSetStack t @ [?N]"
    and k: "kind (sets ?t' ! ?N) = Scope"
    and br: "branches (sets ?t' ! ?N) = []"
    and b: "\<forall>x. binding ?t' ?N x =
        (if x \<in> carriedNames carry \<and> getType t x None \<noteq> []
         then Some (getType t x None) else None)"
    unfolding carriedNames_iff by blast+
  have g: "getType ?t' x None = (if x \<in> carriedNames carry then getType t x None else [])" for x
    unfolding carriedNames_iff using assms by (rule getType_pushScope)
  have g1: "\<forall>x. x \<in> carriedNames carry \<longrightarrow> getType ?t' x None = getType t x None"
    using g by simp
  have g2: "\<forall>x. x \<notin> carriedNames carry \<longrightarrow> getType ?t' x None = []"
    using g by simp
  have r: "reachable mrg (popScope ?t')" using assms by (simp add: r_pushScope r_popScope)
  have d: "detached (popScope ?t') ?N" using assms by (rule popScope_pushScope_detached)
  have same: "binding (popScope ?t') ?N x = binding ?t' ?N x" for x
    by (simp add: binding_def popScope_def)
  have fr: "\<forall>u. steps mrg (popScope ?t') u \<longrightarrow> (\<forall>x. binding u ?N x = binding ?t' ?N x)"
  proof (intro allI impI)
    fix u x assume "steps mrg (popScope ?t') u"
    from steps_detached[OF this r d] show "binding u ?N x = binding ?t' ?N x"
      by (simp add: same)
  qed
  from st k br b g1 g2 fr show ?thesis by blast
qed

lemma reachable_outerTable: "reachable mrg outerTable"
proof -
  have "setType ''$a'' ''int'' create = Inr outerTable"
    by (simp add: setType_def create_def top_def outerTable_def)
  with r_create show ?thesis by (rule r_setType)
qed

theorem pushScope_captures_by_value_witness:
  "reachable concatMerge outerTable \<and>
   ''$a'' \<in> carriedNames (Some [''$a'', ''$zz'']) \<and>
   ''$q'' \<notin> carriedNames (Some [''$a'', ''$zz'']) \<and>
   binding (pushScope (Some [''$a'', ''$zz'']) outerTable) 1 ''$a'' = Some ''int'' \<and>
   binding (pushScope (Some [''$a'', ''$zz'']) outerTable) 1 ''$zz'' = None \<and>
   getType (pushScope (Some [''$a'', ''$zz'']) outerTable) ''$a'' None = ''int'' \<and>
   getType (pushScope (Some [''$a'', ''$zz'']) outerTable) ''$q'' None = [] \<and>
   (\<exists>u. setType ''$a'' ''string'' (popScope (pushScope (Some [''$a'', ''$zz'']) outerTable)) = Inr u \<and>
        getType u ''$a'' None = ''string'' \<and> binding u 1 ''$a'' = Some ''int'')"
proof -
  let ?c = "Some [''$a'', ''$zz'']"
  let ?t' = "pushScope ?c outerTable"
  let ?u = "\<lparr>objs = [\<lparr>tv_name = ''$a'', tv_type = ''int''\<rparr>,
                     \<lparr>tv_name = ''$a'', tv_type = ''int''\<rparr>,
                     \<lparr>tv_name = ''$a'', tv_type = ''string''\<rparr>],
             sets = [\<lparr>kind = Scope, variables = [(''$a'', 2)], branches = []\<rparr>,
                     \<lparr>kind = Scope, variables = [(''$a'', 1)], branches = []\<rparr>],
             typeVariableSetStack = [0]\<rparr>"
  have r: "reachable concatMerge outerTable" by (rule reachable_outerTable)
  have len: "length (sets outerTable) = 1" by (simp add: outerTable_def)
  have g: "getType outerTable ''$a'' None = ''int''" "getType outerTable ''$zz'' None = []"
    by (simp_all add: outerTable_def)
  have c1: "''$a'' \<in> carriedNames ?c" "''$zz'' \<in> carriedNames ?c" "''$q'' \<notin> carriedNames ?c"
    by (simp_all add: carriedNames_def)
  have ps: "?t' = \<lparr>objs = [\<lparr>tv_name = ''$a'', tv_type = ''int''\<rparr>,
                           \<lparr>tv_name = ''$a'', tv_type = ''int''\<rparr>],
                   sets = [\<lparr>kind = Scope, variables = [(''$a'', 0)], branches = []\<rparr>,
                           \<lparr>kind = Scope, variables = [(''$a'', 1)], branches = []\<rparr>],
                   typeVariableSetStack = [0, 1]\<rparr>"
    by (simp add: pushScope_def outerTable_def Let_def)
  have su: "setType ''$a'' ''string'' (popScope ?t') = Inr ?u"
    unfolding ps by (simp add: setType_def popScope_def top_def)
  have stp: "steps concatMerge (popScope ?t') ?u"
    by (rule s_setType[OF s_refl su])
  have gu: "getType ?u ''$a'' None = ''string''" by simp
  note th = pushScope_captures_by_value[OF r, of ?c, unfolded len]
  from th have b: "\<And>x. binding ?t' 1 x =
       (if x \<in> carriedNames ?c \<and> getType outerTable x None \<noteq> []
        then Some (getType outerTable x None) else None)"
    by blast
  have b1: "binding ?t' 1 ''$a'' = Some ''int''"
    unfolding b[of "''$a''"] g(1) using c1(1) by simp
  have b2: "binding ?t' 1 ''$zz'' = None"
    unfolding b[of "''$zz''"] g(2) by simp
  from th c1(1) have "getType ?t' ''$a'' None = getType outerTable ''$a'' None" by blast
  then have g1: "getType ?t' ''$a'' None = ''int''" unfolding g(1) .
  from th c1(3) have g2: "getType ?t' ''$q'' None = []" by blast
  from th stp have "binding ?u 1 ''$a'' = binding ?t' 1 ''$a''" by blast
  then have b3: "binding ?u 1 ''$a'' = Some ''int''" unfolding b1 .
  note b1 b2 g1 g2 b3
  with r c1 su gu show ?thesis by blast
qed

lemma findSymbols_Function_Constant:
  assumes "ref_kind ref = Function \<or> ref_kind ref = Constant"
  shows "findSymbols env ref uri = map Some
        (if store_find env (ref_name ref) (\<lambda>x. sym_kind x = ref_kind ref) = [] \<and>
            truthy (ref_altName ref)
         then store_find env (orEmpty (ref_altName ref)) (\<lambda>x. sym_kind x = ref_kind ref)
         else store_find env (ref_name ref) (\<lambda>x. sym_kind x = ref_kind ref))"
  using assms
proof
  assume k: "ref_kind ref = Function"
  show ?thesis unfolding findSymbols_def k by (simp add: Let_def)
next
  assume k: "ref_kind ref = Constant"
  show ?thesis unfolding findSymbols_def k by (simp add: Let_def)
qed

text \<open>
  C8. For a function or constant reference \<open>findSymbols\<close> asks the symbol database for
  \<open>ref.name\<close> under the filter "same kind as the reference"; it asks again, for
  \<open>ref.altName\<close> under the same filter, exactly when the first answer is empty and
  \<open>altName\<close> is set (a non-empty string). Together with the name reducer
  \<open>QualifiedNameTransform.push\<close>, which stores the name as written in \<open>altName\<close> whenever
  namespace resolution changed it, an unqualified name with no declaration under its
  resolved name resolves to the declarations of the name as written.
\<close>

theorem findSymbols_function_constant_fallback:
  shows "(ref_kind ref = Function \<or> ref_kind ref = Constant \<longrightarrow>
      findSymbols env ref uri = map Some
        (if store_find env (ref_name ref) (\<lambda>x. sym_kind x = ref_kind ref) = [] \<and>
            truthy (ref_altName ref)
         then store_find env (orEmpty (ref_altName ref)) (\<lambda>x. sym_kind x = ref_kind ref)
         else store_find env (ref_name ref) (\<lambda>x. sym_kind x = ref_kind ref))) \<and>
    (\<forall>k name rng resolve. (k = Function \<or> k = Constant) \<and> name \<noteq> [] \<and>
       store_find env (resolve name k) (\<lambda>x. sym_kind x = k) = [] \<longrightarrow>
       findSymbols env
         (QualifiedNameTransform_push resolve (QualifiedNameTransform_create k rng)
            \<lparr>phraseType = Some NamespaceName, tokenType = None, tvalue = StringValue name\<rparr>) uri =
       map Some (store_find env name (\<lambda>x. sym_kind x = k)))"
proof (intro conjI allI impI)
  assume "ref_kind ref = Function \<or> ref_kind ref = Constant"
  then show "findSymbols env ref uri = map Some
        (if store_find env (ref_name ref) (\<lambda>x. sym_kind x = ref_kind ref) = [] \<and>
            truthy (ref_altName ref)
         then store_find env (orEmpty (ref_altName ref)) (\<lambda>x. sym_kind x = ref_kind ref)
         else store_find env (ref_name ref) (\<lambda>x. sym_kind x = ref_kind ref))"
    by (rule findSymbols_Function_Constant)
next
  fix k name rng and resolve :: "string \<Rightarrow> SymbolKind \<Rightarrow> string"
  assume h: "(k = Function \<or> k = Constant) \<and> name \<noteq> [] \<and>
       store_find env (resolve name k) (\<lambda>x. sym_kind x = k) = []"
  define r where "r = QualifiedNameTransform_push resolve (QualifiedNameTransform_create k rng)
            \<lparr>phraseType = Some NamespaceName, tokenType = None, tvalue = StringValue name\<rparr>"
  have kind: "ref_kind r = k" and nm: "ref_name r = resolve name k"
    by (simp_all add: r_def QualifiedNameTransform_push_def QualifiedNameTransform_create_def
        Reference_create_def Let_def)
  have alt: "ref_altName r = (if name \<noteq> resolve name k then Some name else None)"
    using h by (auto simp: r_def QualifiedNameTransform_push_def QualifiedNameTransform_create_def
        Reference_create_def Let_def)
  from h kind have "ref_kind r = Function \<or> ref_kind r = Constant" by simp
  from findSymbols_Function_Constant[OF this, of env uri]
  have fs: "findSymbols env r uri = map Some
        (if truthy (ref_altName r) then store_find env (orEmpty (ref_altName r)) (\<lambda>x. sym_kind x = k)
         else [])"
    using h by (simp add: kind nm)
  have "findSymbols env r uri = map Some (store_find env name (\<lambda>x. sym_kind x = k))"
  proof (cases "name = resolve name k")
    case True
    then have "store_find env name (\<lambda>x. sym_kind x = k) = []" using h by simp
    then show ?thesis using True by (simp add: fs alt truthy_def)
  next
    case False
    then show ?thesis using h by (simp add: fs alt truthy_def orEmpty_def)
  qed
  then show "findSymbols env
         (QualifiedNameTransform_push resolve (QualifiedNameTransform_create k rng)
            \<lparr>phraseType = Some NamespaceName, tokenType = None, tvalue = StringValue name\<rparr>) uri =
       map Some (store_find env name (\<lambda>x. sym_kind x = k))"
    by (simp add: r_def)
qed

theorem findSymbols_function_constant_fallback_witness:
  "store_find exStore (namespacedResolver ''strlen'' Function) (\<lambda>x. sym_kind x = Function) = [] \<and>
   findSymbols exStore
     (QualifiedNameTransform_push namespacedResolver
        (QualifiedNameTransform_create Function exRange)
        \<lparr>phraseType = Some NamespaceName, tokenType = None, tvalue = StringValue ''strlen''\<rparr>)
     ''file:///a.php'' = [Some globalStrlen]"
proof -
  have e: "store_find exStore (namespacedResolver ''strlen'' Function)
      (\<lambda>x. sym_kind x = Function) = []"
    by (simp add: exStore_def namespacedResolver_def)
  have g: "store_find exStore ''strlen'' (\<lambda>x. sym_kind x = Function) = [globalStrlen]"
    by (simp add: exStore_def globalStrlen_def)
  from findSymbols_function_constant_fallback[of _ exStore] e
  have "findSymbols exStore
     (QualifiedNameTransform_push namespacedResolver
        (QualifiedNameTransform_create Function exRange)
        \<lparr>phraseType = Some NamespaceName, tokenType = None, tvalue = StringValue ''strlen''\<rparr>)
     ''file:///a.php'' = map Some (store_find exStore ''strlen'' (\<lambda>x. sym_kind x = Function))"
    by blast
  with e g show ?thesis by simp
qed

text \<open>
  C3. \<open>findMembers\<close> hands the matching members of each atomic class to
  \<open>Set.prototype.add.apply\<close>, which calls \<open>add\<close> with the array's elements as its argument
  list: only the first matching member of a class is added, and for a class without a
  matching member the value \<open>undefined\<close> is added. For a method reference \<open>foo\<close> on a
  receiver of class \<open>A\<close>, which declares no such method, the result is the one-element
  array holding \<open>undefined\<close> (\<open>None\<close>) instead of the empty array; on class \<open>B\<close>, where
  two members match the name case-insensitively, only the first one is returned.
\<close>

theorem findMembers_adds_only_first_argument:
  "findSymbols exStore (methodRef ''A'') uri = [None] \<and>
   filter (\<lambda>x. sym_kind x = Method \<and> toLowerCase (sym_name x) = toLowerCase ''foo'') [methodBar] = [] \<and>
   findSymbols exStore (methodRef ''B'') uri = [Some methodFooOwn] \<and>
   filter (\<lambda>x. sym_kind x = Method \<and> toLowerCase (sym_name x) = toLowerCase ''foo'')
     [methodFooOwn, methodFooInherited] = [methodFooOwn, methodFooInherited]"
  by (simp add: findSymbols_def findMembers_def methodRef_def Reference_create_def exStore_def
      setAddApply_def setAdd_def methodBar_def methodFooOwn_def methodFooInherited_def
      toLowerCase_def lowerChar_def)

text \<open>
  C7. The scope predicate of the variable case accepts only methods and functions carrying
  the \<open>Anonymous\<close> modifier. For a variable reference placed inside the named function
  \<open>foo\<close>, whose span contains the reference's start and whose parameter \<open>$a\<close> has the
  reference's name, no declaration satisfies the predicate, the search falls back to the
  file-level root, and nothing is found, whatever \<open>util.isInRange\<close> computes. No
  declaration of the document satisfies the predicate, so the outcome does not depend on
  the order in which \<open>table.find\<close> searches.
\<close>

theorem findSymbols_variable_misses_named_function:
  "findSymbols (exStore\<lparr>util_isInRange := inRange\<rparr>) variableRef uri = [] \<and>
   findSymbols exStore variableRef uri = [] \<and>
   \<not> variableScope env variableRef fileRoot \<and>
   \<not> variableScope env variableRef functionFoo \<and>
   \<not> variableScope env variableRef paramA \<and>
   sym_kind functionFoo = Function \<and>
   sym_location functionFoo = Some \<lparr>range_start = (0, 0), range_end = (2, 1)\<rparr> \<and>
   isInRange (range_start (ref_range variableRef)) (0, 0) (2, 1) = 0 \<and>
   sym_children functionFoo = Some [paramA] \<and>
   sym_kind paramA = Parameter \<and> sym_name paramA = ref_name variableRef"
  by (simp add: findSymbols_def findVariable_def variableRef_def Reference_create_def
      exStore_def fileRoot_def functionFoo_def paramA_def variableScope_def isInRange_def
      positionLess_def exRange_def)

lemma pushToParent_null:
  assumes "list_all (\<lambda>t. t = None) stack"
  shows "pushToParent ctx stack v node = Inr stack"
proof (cases "stack = []")
  case True
  then show ?thesis by (simp add: pushToParent_def)
next
  case False
  then have "last stack \<in> set stack" by simp
  with assms have "last stack = None" by (simp add: list_all_iff)
  with False show ?thesis by (simp add: pushToParent_def)
qed

lemma postorder2_null:
  assumes "nullStack st" "\<not> isNamePhrase pt"
  shows "postorder2 ctx (Phrase pt i cs) sp (st\<lparr>transformerStack := transformerStack st @ [None]\<rparr>) = Inr st"
  using assms pushToParent_null[of "transformerStack st" ctx]
  by (simp add: nullStack_def Let_def)

lemma inert_Token: "inert ctx (Token tt i)"
  by (simp add: inert_def referenceVisitor_def)

lemma inert_Phrase:
  assumes "inertList ctx cs"
  shows "inert ctx (Phrase pt i cs)"
  unfolding inert_def
proof (intro allI impI)
  fix sp st
  assume ns: "nullStack st" and nh: "\<not> haltTraverse st"
  let ?st1 = "st\<lparr>transformerStack := transformerStack st @ [None]\<rparr>"
  have ns1: "nullStack ?st1" and nh1: "\<not> haltTraverse ?st1"
    using ns nh by (simp_all add: nullStack_def)
  show "traverse (referenceVisitor ctx) (Phrase pt i cs) sp st =
      (if reachesName (Phrase pt i cs) then Inl ReferenceError else Inr st)"
  proof (cases "isNamePhrase pt")
    case True
    then show ?thesis using nh by (simp add: referenceVisitor_def)
  next
    case False
    note po = postorder2_null[OF ns False, of ctx i cs sp]
    show ?thesis
    proof (cases "pt = NamespaceName")
      case True
      then show ?thesis using nh False po by (simp add: referenceVisitor_def)
    next
      case nn: False
      from assms ns1 nh1
      have ch: "traverseChildren (referenceVisitor ctx) cs (sp @ [Phrase pt i cs]) ?st1 =
          (if reachesNameList cs then Inl ReferenceError else Inr ?st1)"
        unfolding inertList_def by blast
      have hv: "halted (referenceVisitor ctx) = haltTraverse"
        and pv: "preorder (referenceVisitor ctx) = preorder2"
        and qv: "postorder (referenceVisitor ctx) = postorder2 ctx"
        by (simp_all add: referenceVisitor_def)
      show ?thesis
        using nh False nn po ch
        by (simp add: hv pv qv del: postorder2.simps)
    qed
  qed
qed

lemma inertList_Nil: "inertList ctx []"
  by (simp add: inertList_def)

lemma inertList_Cons:
  assumes "inert ctx c" "inertList ctx cs"
  shows "inertList ctx (c # cs)"
  using assms unfolding inert_def inertList_def
  by (simp add: referenceVisitor_def)

lemma inert_all: "inert ctx n" and inertList_all: "inertList ctx cs"
  by (induction n and cs rule: reachesName_reachesNameList.induct)
     (simp_all add: inert_Token inert_Phrase inertList_Nil inertList_Cons)

lemma traverse_fresh:
  assumes "nullStack st" and "\<not> haltTraverse st"
  shows "traverse (referenceVisitor ctx) n sp st =
      (if reachesName n then Inl ReferenceError else Inr st)"
  using inert_all[of ctx n] assms unfolding inert_def by blast

lemma collectReferences_eq:
  "collectReferences ctx tree = (if reachesName tree then Inl ReferenceError else Inr [])"
proof -
  have "nullStack ReferenceVisitor_create" "\<not> haltTraverse ReferenceVisitor_create"
    by (simp_all add: nullStack_def ReferenceVisitor_create_def)
  from traverse_fresh[OF this, of ctx tree "[]"] show ?thesis
    by (simp add: collectReferences_def ReferenceVisitor_create_def)
qed













text \<open>
  C5. The pre-order visit of a qualified, relative or fully qualified name phrase
  evaluates a constructor name that nothing in the module binds and raises a
  \<open>ReferenceError\<close>, whatever the visitor state, the spine and the collaborators are. A
  full traversal by a fresh \<open>ReferenceVisitor\<close> therefore raises exactly when the walk
  reaches a name phrase, and returns no reference otherwise; on the tree of
  \<open>new Foo(Bar::X)\<close> it raises.
\<close>

theorem traversal_raises_on_name_phrase:
  "preorder2 (Phrase QualifiedName i cs) spine st = Inl ReferenceError \<and>
   preorder2 (Phrase RelativeQualifiedName i cs) spine st = Inl ReferenceError \<and>
   preorder2 (Phrase FullyQualifiedName i cs) spine st = Inl ReferenceError \<and>
   collectReferences ctx tree = (if reachesName tree then Inl ReferenceError else Inr []) \<and>
   reachesName exNameTree \<and>
   collectReferences ctx exNameTree = Inl ReferenceError"
proof -
  have r: "reachesName exNameTree"
    by (simp add: exNameTree_def isNamePhrase_def)
  then have "collectReferences ctx exNameTree = Inl ReferenceError"
    by (simp add: collectReferences_eq)
  with r show ?thesis
    by (simp add: collectReferences_eq isNamePhrase_def)
qed

text \<open>
  C4. The methods of a \<open>ReferenceVisitor\<close> never signal a halt. For the assignment
  \<open>$x = 1;\<close>, a node of the special case whose span contains offset 3, \<open>preorder\<close>
  pushes \<open>null\<close>, asks the driver to descend and leaves the halt signal as it was. A
  traversal by a fresh visitor that was given a halt offset raises if the walk reaches a
  name phrase and otherwise returns the visitor unchanged, whatever the offset is: on two
  such assignments with the offset inside the first, it returns the visitor as it was,
  without a halt signal and with the same (empty) references as a visitor that was given
  no offset, so not with a strict prefix of them; with a call after the assignment, the
  walk goes on to the call, where it raises.
\<close>

theorem halt_offset_is_never_signalled:
  "isSpecialCase (exAssignment 0) \<and> isOffsetInNode 3 (exAssignment 0) \<and>
   preorder2 (exAssignment 0) spine st =
     Inr (True, st\<lparr>transformerStack := transformerStack st @ [None]\<rparr>) \<and>
   traverse (referenceVisitor ctx) tree [] (ReferenceVisitor_create\<lparr>haltAtOffset := h\<rparr>) =
     (if reachesName tree then Inl ReferenceError
      else Inr (ReferenceVisitor_create\<lparr>haltAtOffset := h\<rparr>)) \<and>
   traverse (referenceVisitor ctx) exStatements []
       (ReferenceVisitor_create\<lparr>haltAtOffset := Some 3\<rparr>) =
     Inr (ReferenceVisitor_create\<lparr>haltAtOffset := Some 3\<rparr>) \<and>
   \<not> haltTraverse (ReferenceVisitor_create\<lparr>haltAtOffset := Some 3\<rparr>) \<and>
   references (ReferenceVisitor_create\<lparr>haltAtOffset := Some 3\<rparr>) = [] \<and>
   \<not> strict_prefix (references (ReferenceVisitor_create\<lparr>haltAtOffset := Some 3\<rparr>))
       (references ReferenceVisitor_create) \<and>
   traverse (referenceVisitor ctx) exAssignmentThenCall []
       (ReferenceVisitor_create\<lparr>haltAtOffset := Some 3\<rparr>) = Inl ReferenceError"
proof -
  have f: "nullStack (ReferenceVisitor_create\<lparr>haltAtOffset := k\<rparr>)"
    "\<not> haltTraverse (ReferenceVisitor_create\<lparr>haltAtOffset := k\<rparr>)" for k
    by (simp_all add: nullStack_def ReferenceVisitor_create_def)
  have t: "traverse (referenceVisitor ctx) n [] (ReferenceVisitor_create\<lparr>haltAtOffset := k\<rparr>) =
      (if reachesName n then Inl ReferenceError
       else Inr (ReferenceVisitor_create\<lparr>haltAtOffset := k\<rparr>))" for k n
    by (rule traverse_fresh[OF f])
  have s: "isSpecialCase (exAssignment 0)" "isOffsetInNode 3 (exAssignment 0)"
    by (simp_all add: isSpecialCase_def isOffsetInNode_def exAssignment_def exInfo_def)
  have p: "preorder2 (exAssignment 0) spine st =
     Inr (True, st\<lparr>transformerStack := transformerStack st @ [None]\<rparr>)"
    by (simp add: exAssignment_def isNamePhrase_def)
  have r1: "\<not> reachesName exStatements"
    by (simp add: exStatements_def exAssignment_def isNamePhrase_def)
  have r2: "reachesName exAssignmentThenCall"
    by (simp add: exAssignmentThenCall_def exAssignment_def exCall_def isNamePhrase_def)
  have e: "references (ReferenceVisitor_create\<lparr>haltAtOffset := Some 3\<rparr>) = []"
    "references ReferenceVisitor_create = []"
    by (simp_all add: ReferenceVisitor_create_def)
  from s p t[of tree h] t[of exStatements "Some 3"] t[of exAssignmentThenCall "Some 3"]
    r1 r2 f(2)[of "Some 3"] e
  show ?thesis by simp
qed

end
